theory Spec2Isabelle
  imports Main "HOL-Library.AList"
begin

section \<open>Go values as seen through package reflect\<close>

text \<open>
  The package \<^verbatim>\<open>sentinel\<close> walks arbitrary Go values with \<^verbatim>\<open>reflect\<close> and hands
  them back to \<^verbatim>\<open>log/slog\<close>. The embedding therefore has three layers: Go types and
  values with their dynamic type, the parts of \<^verbatim>\<open>reflect\<close> and \<^verbatim>\<open>slog\<close> the walker
  calls (each a small definition that follows the documented behaviour of the library
  function of the same name, a panic being the outcome \<open>Panic\<close>), and the functions of
  the package itself, translated one by one.

  The universe of types: the predeclared booleans, strings and integers, defined
  (named) types over them, pointers, slices, arrays, maps, structs, the empty interface
  and \<^verbatim>\<open>[]slog.Attr\<close> (what \<^verbatim>\<open>Value.Any\<close> returns for a group). Floats, channels,
  functions, \<^verbatim>\<open>time.Time\<close>, recursive type declarations and pointers into the middle
  of a variable are outside of it; cyclic graphs are built through the store, with
  slots of interface type.
\<close>

type_synonym addr = nat

datatype basic =
  TBool | TString | TInt | TInt8 | TInt16 | TInt32 | TInt64
  | TUint | TUint8 | TUint16 | TUint32 | TUint64 | TUintptr

datatype gotype =
    Basic basic
  | Named string gotype
  | PtrT gotype
  | SliceT gotype
  | ArrayT nat gotype
  | MapT gotype gotype
  | StructT "StructField list"
  | AnyT
  | AttrsT
and StructField =
  StructField (Name: string) (PkgPath: string) (Type: gotype) (Tag: "(string \<times> string) list")

text \<open>
  \<open>Named n u\<close> is the defined type \<open>n\<close> with underlying type \<open>u\<close>; \<open>AnyT\<close> is
  \<^verbatim>\<open>interface{}\<close>; \<open>AttrsT\<close> is \<^verbatim>\<open>[]slog.Attr\<close>. A struct field carries what
  \<^verbatim>\<open>reflect.StructField\<close> carries: \<open>PkgPath\<close> is empty exactly for an exported field,
  and the tag is kept as its key/value pairs.
\<close>

datatype goval =
    VBool gotype bool
  | VString gotype string
  | VInt gotype int
  | VPtr gotype "addr option"
  | VSlice gotype "goval list option"
  | VArray gotype "goval list"
  | VMap gotype "(goval \<times> goval) list option"
  | VStruct gotype "goval list"
  | VIface gotype "goval option"
  | VAttrs "addr option"

text \<open>
  Every value carries its type. \<open>None\<close> is nil. \<open>VIface\<close> is the content of a slot of
  interface type (a field, an element, a variable behind a pointer); a value of type
  \<^verbatim>\<open>any\<close> passed around by the code is a \<open>goval option\<close>, \<open>None\<close> being the nil
  interface. A map is the list of its entries in the order in which \<^verbatim>\<open>MapRange\<close>
  happens to yield them.
\<close>

fun typeOf :: "goval \<Rightarrow> gotype" where
  "typeOf (VBool t _) = t"
| "typeOf (VString t _) = t"
| "typeOf (VInt t _) = t"
| "typeOf (VPtr t _) = t"
| "typeOf (VSlice t _) = t"
| "typeOf (VArray t _) = t"
| "typeOf (VMap t _) = t"
| "typeOf (VStruct t _) = t"
| "typeOf (VIface t _) = t"
| "typeOf (VAttrs _) = AttrsT"

fun underlying :: "gotype \<Rightarrow> gotype" where
  "underlying (Named n u) = underlying u"
| "underlying t = t"

fun HasName :: "gotype \<Rightarrow> bool" where
  "HasName (Basic _) = True"
| "HasName (Named _ _) = True"
| "HasName _ = False"

datatype rkind =
  KBasic basic | KPointer | KSlice | KArray | KMap | KStruct | KInterface

fun kindOfType :: "gotype \<Rightarrow> rkind" where
  "kindOfType (Basic b) = KBasic b"
| "kindOfType (Named n u) = kindOfType u"
| "kindOfType (PtrT _) = KPointer"
| "kindOfType (SliceT _) = KSlice"
| "kindOfType (ArrayT _ _) = KArray"
| "kindOfType (MapT _ _) = KMap"
| "kindOfType (StructT _) = KStruct"
| "kindOfType AnyT = KInterface"
| "kindOfType AttrsT = KSlice"

text \<open>\<^verbatim>\<open>Value.Kind\<close>: the kind of the value's type.\<close>

definition Kind :: "goval \<Rightarrow> rkind" where
  "Kind rv = kindOfType (typeOf rv)"

text \<open>
  \<^verbatim>\<open>Type.AssignableTo\<close> is \<^verbatim>\<open>directlyAssignable(T, V) || implements(T, V)\<close>. Two
  types are directly assignable when they are identical, or when at most one of them
  has a name and their underlying types are identical. The only interface type of the
  universe has no methods, so every type implements it.
\<close>

definition directlyAssignable :: "gotype \<Rightarrow> gotype \<Rightarrow> bool" where
  "directlyAssignable T V =
     (if T = V then True
      else if (HasName T \<and> HasName V) \<or> kindOfType T \<noteq> kindOfType V then False
      else underlying T = underlying V)"

definition implements :: "gotype \<Rightarrow> gotype \<Rightarrow> bool" where
  "implements T V = (kindOfType T = KInterface)"

definition AssignableTo :: "gotype \<Rightarrow> gotype \<Rightarrow> bool" where
  "AssignableTo V T = (directlyAssignable T V \<or> implements T V)"

text \<open>
  \<^verbatim>\<open>reflect.Zero\<close>: the zero value of a type. The measure counts constructors; the
  array case recurses under \<open>replicate\<close>, the struct case under \<open>map\<close>.
\<close>

fun retag :: "gotype \<Rightarrow> goval \<Rightarrow> goval" where
  "retag t (VBool _ b) = VBool t b"
| "retag t (VString _ s) = VString t s"
| "retag t (VInt _ i) = VInt t i"
| "retag t (VPtr _ p) = VPtr t p"
| "retag t (VSlice _ xs) = VSlice t xs"
| "retag t (VArray _ xs) = VArray t xs"
| "retag t (VMap _ m) = VMap t m"
| "retag t (VStruct _ fs) = VStruct t fs"
| "retag t (VIface _ x) = VIface t x"
| "retag t (VAttrs a) = VAttrs a"

fun Zero :: "gotype \<Rightarrow> goval"
  and ZeroFields :: "StructField list \<Rightarrow> goval list" where
  "Zero (Basic TBool) = VBool (Basic TBool) False"
| "Zero (Basic TString) = VString (Basic TString) []"
| "Zero (Basic b) = VInt (Basic b) 0"
| "Zero (Named n u) = retag (Named n u) (Zero u)"
| "Zero (PtrT e) = VPtr (PtrT e) None"
| "Zero (SliceT e) = VSlice (SliceT e) None"
| "Zero (ArrayT k e) = VArray (ArrayT k e) (replicate k (Zero e))"
| "Zero (MapT k e) = VMap (MapT k e) None"
| "Zero (StructT sfs) = VStruct (StructT sfs) (ZeroFields sfs)"
| "Zero AnyT = VIface AnyT None"
| "Zero AttrsT = VAttrs None"
| "ZeroFields [] = []"
| "ZeroFields (StructField n p t tg # sfs) = Zero t # ZeroFields sfs"


text \<open>
  Reading a value out and storing one. \<^verbatim>\<open>Value.Interface\<close> returns the value as an
  \<^verbatim>\<open>any\<close>: for a slot of interface type that is the value inside (nil for the nil
  interface). \<^verbatim>\<open>Value.Set\<close> converts the assigned value to the type of the slot: into
  an interface slot it is boxed, into any other slot it takes the slot's type.
\<close>

fun Interface :: "goval \<Rightarrow> goval option" where
  "Interface (VIface _ x) = x"
| "Interface v = Some v"

definition Set_val :: "gotype \<Rightarrow> goval \<Rightarrow> goval" where
  "Set_val T x = (if kindOfType T = KInterface then VIface T (Some x) else retag T x)"

text \<open>
  \<^verbatim>\<open>Value.IsNil\<close> panics unless the kind is pointer, interface, slice or map (channels
  and functions are not in the universe): \<open>None\<close> is the panic.
\<close>

definition IsNil :: "goval \<Rightarrow> bool option" where
  "IsNil rv =
     (case rv of
        VPtr _ p \<Rightarrow> Some (p = None)
      | VSlice _ xs \<Rightarrow> Some (xs = None)
      | VMap _ m \<Rightarrow> Some (m = None)
      | VIface _ x \<Rightarrow> Some (x = None)
      | VAttrs a \<Rightarrow> Some (a = None)
      | _ \<Rightarrow> None)"

text \<open>
  \<^verbatim>\<open>Value.Pointer\<close> on the two kinds the walker's loop admits: the address of a
  pointer (0 for nil), a panic for the interface kind, which \<^verbatim>\<open>Pointer\<close> does not
  accept.
\<close>

definition Pointer :: "goval \<Rightarrow> addr option" where
  "Pointer rv =
     (case rv of
        VPtr _ (Some a) \<Rightarrow> Some a
      | VPtr _ None \<Rightarrow> Some 0
      | _ \<Rightarrow> None)"

definition CanInterface :: "StructField \<Rightarrow> bool" where
  "CanInterface sf = (PkgPath sf = [])"

text \<open>\<^verbatim>\<open>StructTag.Get\<close>: the value of the key, the empty string when the key is absent.\<close>

definition Tag_Get :: "(string \<times> string) list \<Rightarrow> string \<Rightarrow> string" where
  "Tag_Get tag key = (case map_of tag key of None \<Rightarrow> [] | Some v \<Rightarrow> v)"

text \<open>
  A map key must be hashable when it is inserted: a slice or a map inside an interface
  key makes \<^verbatim>\<open>SetMapIndex\<close> panic.
\<close>

fun hashable :: "goval \<Rightarrow> bool" where
  "hashable (VSlice _ _) = False"
| "hashable (VMap _ _) = False"
| "hashable (VAttrs _) = False"
| "hashable (VStruct _ fs) = list_all hashable fs"
| "hashable (VArray _ xs) = list_all hashable xs"
| "hashable (VIface _ (Some v)) = hashable v"
| "hashable _ = True"

section \<open>Outcomes\<close>

text \<open>A call returns, panics, or is cut off at the depth it was given.\<close>

datatype 'a outcome = Ok 'a | Panic | OutOfFuel

definition andThen :: "'a outcome \<Rightarrow> ('a \<Rightarrow> 'b outcome) \<Rightarrow> 'b outcome" where
  "andThen m f = (case m of Ok x \<Rightarrow> f x | Panic \<Rightarrow> Panic | OutOfFuel \<Rightarrow> OutOfFuel)"

section \<open>The slog values and the store\<close>

text \<open>
  A \<^verbatim>\<open>slog.Value\<close> is one of: an arbitrary Go value (\<^verbatim>\<open>Value{any: x}\<close>), a boolean, a
  signed or unsigned 64-bit integer, a string, or a group, which is a pointer to the
  backing array of its attributes. The backing arrays live in the store, as do the
  variables that pointers point to: the walker writes to the former, and a claim on
  what it leaves untouched is a claim on the store.
\<close>

datatype Value =
    AnyV "goval option"
  | BoolV bool
  | Int64V int
  | Uint64V int
  | StringV string
  | GroupV "addr option"

record Attr =
  Key :: string
  Value :: Value

record store =
  cells :: "addr \<Rightarrow> goval option"
  arrays :: "addr \<Rightarrow> Attr list option"
  brk :: addr

text \<open>
  \<open>brk\<close> is the next free address. The state of one walk is the store and the
  \<^verbatim>\<open>visited map[uintptr]bool\<close> the functions hand to each other; a Go map is a
  reference, so an entry set by a callee is seen by the caller, and every function
  returns the map with the result.
\<close>

record walk =
  visited :: "addr \<Rightarrow> bool"
  mem :: store

definition alloc_array :: "Attr list \<Rightarrow> store \<Rightarrow> addr \<times> store" where
  "alloc_array as st = (brk st, st\<lparr>arrays := (arrays st)(brk st \<mapsto> as), brk := Suc (brk st)\<rparr>)"

definition alloc_cell :: "goval \<Rightarrow> store \<Rightarrow> addr \<times> store" where
  "alloc_cell v st = (brk st, st\<lparr>cells := (cells st)(brk st \<mapsto> v), brk := Suc (brk st)\<rparr>)"

text \<open>
  \<^verbatim>\<open>slog.GroupValue(as...)\<close> on a slice: when an attribute is an empty group, the
  non-empty ones are copied to a new array; otherwise the group points to the array of
  the slice it was given, which is not copied. \<open>GroupValue_of\<close> is the call with
  attributes listed in place, which the compiler puts in a new array.
\<close>

definition isEmptyGroup :: "store \<Rightarrow> Value \<Rightarrow> bool" where
  "isEmptyGroup st v =
     (case v of
        GroupV None \<Rightarrow> True
      | GroupV (Some a) \<Rightarrow> (case arrays st a of None \<Rightarrow> True | Some as \<Rightarrow> as = [])
      | _ \<Rightarrow> False)"

definition GroupValue :: "addr option \<Rightarrow> store \<Rightarrow> Value \<times> store" where
  "GroupValue sl st =
     (case sl of
        None \<Rightarrow> (GroupV None, st)
      | Some a \<Rightarrow>
          (case arrays st a of
             None \<Rightarrow> (GroupV (Some a), st)
           | Some as \<Rightarrow>
               if \<exists>x \<in> set as. isEmptyGroup st (Value x)
               then (let (a2, st2) = alloc_array (filter (\<lambda>x. \<not> isEmptyGroup st (Value x)) as) st
                     in (GroupV (Some a2), st2))
               else (GroupV (Some a), st)))"

definition GroupValue_of :: "Attr list \<Rightarrow> store \<Rightarrow> Value \<times> store" where
  "GroupValue_of as st =
     (if as = [] then (GroupV None, st)
      else (let (a, st1) = alloc_array as st in GroupValue (Some a) st1))"

text \<open>
  \<^verbatim>\<open>slog.AnyValue\<close> switches on the exact dynamic type: the predeclared string,
  integer and boolean types become the typed values, \<^verbatim>\<open>[]slog.Attr\<close> becomes a group,
  and everything else (nil, and every defined type) is kept as it is.
\<close>

definition signed :: "basic \<Rightarrow> bool" where
  "signed b = (b \<in> {TInt, TInt8, TInt16, TInt32, TInt64})"

fun AnyValue :: "goval option \<Rightarrow> store \<Rightarrow> Value \<times> store" where
  "AnyValue (Some (VString (Basic TString) s)) st = (StringV s, st)"
| "AnyValue (Some (VBool (Basic TBool) b)) st = (BoolV b, st)"
| "AnyValue (Some (VInt (Basic b) i)) st = (if signed b then Int64V i else Uint64V i, st)"
| "AnyValue (Some (VAttrs a)) st = GroupValue a st"
| "AnyValue v st = (AnyV v, st)"

text \<open>\<^verbatim>\<open>Value.Any\<close>: the value as an \<^verbatim>\<open>any\<close>; integers come back as \<^verbatim>\<open>int64\<close> and \<^verbatim>\<open>uint64\<close>.\<close>

fun Any :: "Value \<Rightarrow> goval option" where
  "Any (AnyV x) = x"
| "Any (BoolV b) = Some (VBool (Basic TBool) b)"
| "Any (Int64V i) = Some (VInt (Basic TInt64) i)"
| "Any (Uint64V i) = Some (VInt (Basic TUint64) i)"
| "Any (StringV s) = Some (VString (Basic TString) s)"
| "Any (GroupV a) = Some (VAttrs a)"

text \<open>
  The methods of the program under the logger: for a dynamic type that implements
  \<^verbatim>\<open>slog.LogValuer\<close>, its \<^verbatim>\<open>LogValue\<close> method, a function of the receiver that may
  allocate and may panic. It is a parameter of every function of the walker.
\<close>

type_synonym methods = "gotype \<Rightarrow> (goval \<Rightarrow> store \<Rightarrow> (Value \<times> store) outcome) option"

definition asLogValuer ::
  "methods \<Rightarrow> goval option \<Rightarrow> (store \<Rightarrow> (Value \<times> store) outcome) option" where
  "asLogValuer env x =
     (case x of
        None \<Rightarrow> None
      | Some v \<Rightarrow> (case env (typeOf v) of None \<Rightarrow> None | Some LogValue \<Rightarrow> Some (LogValue v)))"

datatype skind = KindAny | KindBool | KindInt64 | KindString | KindUint64 | KindGroup | KindLogValuer

definition Kind_of :: "methods \<Rightarrow> Value \<Rightarrow> skind" where
  "Kind_of env v =
     (case v of
        AnyV x \<Rightarrow> (if asLogValuer env x \<noteq> None then KindLogValuer else KindAny)
      | BoolV _ \<Rightarrow> KindBool
      | Int64V _ \<Rightarrow> KindInt64
      | Uint64V _ \<Rightarrow> KindUint64
      | StringV _ \<Rightarrow> KindString
      | GroupV _ \<Rightarrow> KindGroup)"


section \<open>The walker\<close>

text \<open>
  The functions of the package that copies the value and keeps its kind. Each recurses
  into the others; the recursion follows pointers and the results of \<^verbatim>\<open>LogValue\<close>,
  so it need not end, and a call is given the depth of nested calls it may still use:
  at depth 0 the outcome is \<open>OutOfFuel\<close>. The loops over fields, elements and entries
  are functions of the callee they hand each item to.
\<close>

definition returnAny :: "goval option \<Rightarrow> walk \<Rightarrow> (Value \<times> walk) outcome" where
  "returnAny x w = (let (v, st) = AnyValue x (mem w) in Ok (v, w\<lparr>mem := st\<rparr>))"

text \<open>
  \<^verbatim>\<open>for i, attr := range attrs { attrs[i].Value = processValue(attr.Value, visited) }\<close>:
  the write goes to the array the group points to.
\<close>

fun range_attrs ::
  "(Value \<Rightarrow> walk \<Rightarrow> (Value \<times> walk) outcome) \<Rightarrow> addr \<Rightarrow> nat \<Rightarrow> nat \<Rightarrow> walk \<Rightarrow> walk outcome" where
  "range_attrs pv a i 0 w = Ok w"
| "range_attrs pv a i (Suc k) w =
     (case arrays (mem w) a of
        None \<Rightarrow> Panic
      | Some attrs \<Rightarrow>
          if i < length attrs then
            andThen (pv (Value (attrs ! i)) w) (\<lambda>(v, w1).
              case arrays (mem w1) a of
                None \<Rightarrow> Panic
              | Some attrs1 \<Rightarrow>
                  if i < length attrs1 then
                    range_attrs pv a (Suc i) k
                      (w1\<lparr>mem := (mem w1)\<lparr>arrays :=
                         (arrays (mem w1))(a \<mapsto> attrs1[i := (attrs1 ! i)\<lparr>Value := v\<rparr>])\<rparr>\<rparr>)
                  else Panic)
          else Panic)"

text \<open>
  The loop of \<^verbatim>\<open>processStruct\<close> over the fields of the copy \<^verbatim>\<open>newStruct\<close>: an
  unexported field is skipped, a field with a non-empty \<^verbatim>\<open>sentinel\<close> tag is set to the
  zero value of its type, any other field is processed and the result stored when its
  type is assignable to the field's. \<^verbatim>\<open>reflect.ValueOf\<close> of a nil interface is the
  zero \<^verbatim>\<open>reflect.Value\<close>, on which \<^verbatim>\<open>Type\<close> panics. A field of the addressable copy
  that can be read can be set, so \<^verbatim>\<open>CanSet\<close> is true where it is asked.
\<close>

fun processStruct_fields ::
  "(goval option \<Rightarrow> walk \<Rightarrow> (Value \<times> walk) outcome) \<Rightarrow> StructField list \<Rightarrow> goval list
     \<Rightarrow> walk \<Rightarrow> (goval list \<times> walk) outcome" where
  "processStruct_fields pa (structField # sfs) (newField # fs) w =
     (if \<not> CanInterface structField then
        andThen (processStruct_fields pa sfs fs w) (\<lambda>(rest, w1). Ok (newField # rest, w1))
      else if Tag_Get (Tag structField) ''sentinel'' \<noteq> [] then
        andThen (processStruct_fields pa sfs fs w)
          (\<lambda>(rest, w1). Ok (Zero (Type structField) # rest, w1))
      else
        andThen (pa (Interface newField) w) (\<lambda>(processedValue, w1).
          case Any processedValue of
            None \<Rightarrow> Panic
          | Some newValue \<Rightarrow>
              andThen (processStruct_fields pa sfs fs w1) (\<lambda>(rest, w2).
                Ok ((if AssignableTo (typeOf newValue) (Type structField)
                     then Set_val (Type structField) newValue else newField) # rest, w2))))"
| "processStruct_fields pa [] fs w = Ok (fs, w)"
| "processStruct_fields pa sfs [] w = Ok ([], w)"

text \<open>The loop of \<^verbatim>\<open>processSliceOrArray\<close> over the elements of the copy.\<close>

fun processSlice_elems ::
  "(goval option \<Rightarrow> walk \<Rightarrow> (Value \<times> walk) outcome) \<Rightarrow> gotype \<Rightarrow> goval list
     \<Rightarrow> walk \<Rightarrow> (goval list \<times> walk) outcome" where
  "processSlice_elems pa et [] w = Ok ([], w)"
| "processSlice_elems pa et (element # es) w =
     andThen (pa (Interface element) w) (\<lambda>(processedElement, w1).
       case Any processedElement of
         None \<Rightarrow> Panic
       | Some newValue \<Rightarrow>
           andThen (processSlice_elems pa et es w1) (\<lambda>(rest, w2).
             Ok ((if AssignableTo (typeOf newValue) et
                  then Set_val et newValue else element) # rest, w2)))"

text \<open>
  The loop of \<^verbatim>\<open>processMap\<close> over the entries. Both the key and the value are
  processed before either type is asked for, and \<^verbatim>\<open>&&\<close> asks for the type of the
  value only when the key is assignable.
\<close>

fun processMap_entries ::
  "(goval option \<Rightarrow> walk \<Rightarrow> (Value \<times> walk) outcome) \<Rightarrow> gotype \<Rightarrow> gotype
     \<Rightarrow> (goval \<times> goval) list \<Rightarrow> (goval \<times> goval) list \<Rightarrow> walk
     \<Rightarrow> ((goval \<times> goval) list \<times> walk) outcome" where
  "processMap_entries pa kt vt [] newMap w = Ok (newMap, w)"
| "processMap_entries pa kt vt ((key, val) # rest) newMap w =
     andThen (pa (Interface key) w) (\<lambda>(processedKeyVal, w1).
     andThen (pa (Interface val) w1) (\<lambda>(processedValueVal, w2).
       case Any processedKeyVal of
         None \<Rightarrow> Panic
       | Some processedKey \<Rightarrow>
           if \<not> AssignableTo (typeOf processedKey) kt
           then processMap_entries pa kt vt rest newMap w2
           else
             (case Any processedValueVal of
                None \<Rightarrow> Panic
              | Some processedValue \<Rightarrow>
                  if \<not> AssignableTo (typeOf processedValue) vt
                  then processMap_entries pa kt vt rest newMap w2
                  else if \<not> hashable (Set_val kt processedKey) then Panic
                  else processMap_entries pa kt vt rest
                         (AList.update (Set_val kt processedKey) (Set_val vt processedValue) newMap)
                         w2)))"

text \<open>
  The elements of a \<^verbatim>\<open>[]slog.Attr\<close> are \<^verbatim>\<open>slog.Attr\<close> structs, whose \<^verbatim>\<open>Value\<close> field
  is a struct of unexported fields. On such an element the loop above stores the
  element back unchanged, and panics when the attribute's value is the nil
  \<^verbatim>\<open>Value{any: nil}\<close>; the outcome is the copy of the slice.
\<close>

definition processAttrs :: "addr \<Rightarrow> walk \<Rightarrow> (Value \<times> walk) outcome" where
  "processAttrs a w =
     (case arrays (mem w) a of
        None \<Rightarrow> Panic
      | Some attrs \<Rightarrow>
          if \<exists>x \<in> set attrs. Value x = AnyV None then Panic
          else (let (a1, st) = alloc_array attrs (mem w)
                in returnAny (Some (VAttrs (Some a1))) (w\<lparr>mem := st\<rparr>)))"

datatype call =
    CValue Value
  | CAny "goval option"
  | CLoop goval
  | CStruct goval
  | CSlice goval
  | CMap goval
  | CPointer goval

type_synonym callee = "call \<Rightarrow> walk \<Rightarrow> (Value \<times> walk) outcome"

text \<open>
  The body of each function, with \<open>rec\<close> for the calls it makes: \<open>rec (CAny x)\<close> is
  \<^verbatim>\<open>processAny(x, visited)\<close>, and so on; \<open>CLoop\<close> is one more turn of the loop over
  pointers and interfaces in \<^verbatim>\<open>processAny\<close>, followed by its \<^verbatim>\<open>switch\<close>.
\<close>

definition processValue_body :: "methods \<Rightarrow> callee \<Rightarrow> Value \<Rightarrow> walk \<Rightarrow> (Value \<times> walk) outcome" where
  "processValue_body env rec v w =
     (case Kind_of env v of
        KindAny \<Rightarrow> rec (CAny (Any v)) w
      | KindGroup \<Rightarrow>
          (case v of
             GroupV None \<Rightarrow> (let (g, st) = GroupValue None (mem w) in Ok (g, w\<lparr>mem := st\<rparr>))
           | GroupV (Some attrs) \<Rightarrow>
               (case arrays (mem w) attrs of
                  None \<Rightarrow> Panic
                | Some as \<Rightarrow>
                    andThen (range_attrs (\<lambda>x. rec (CValue x)) attrs 0 (length as) w) (\<lambda>w1.
                      let (g, st) = GroupValue (Some attrs) (mem w1) in Ok (g, w1\<lparr>mem := st\<rparr>)))
           | _ \<Rightarrow> Panic)
      | KindLogValuer \<Rightarrow>
          (case asLogValuer env (Any v) of
             None \<Rightarrow> Panic
           | Some LogValue \<Rightarrow>
               andThen (LogValue (mem w)) (\<lambda>(evaluated, st).
                 rec (CValue evaluated) (w\<lparr>mem := st\<rparr>)))
      | _ \<Rightarrow> Ok (v, w))"

definition processAny_body :: "methods \<Rightarrow> callee \<Rightarrow> goval option \<Rightarrow> walk \<Rightarrow> (Value \<times> walk) outcome" where
  "processAny_body env rec val w =
     (case val of
        None \<Rightarrow> returnAny None w
      | Some rv \<Rightarrow>
          (case asLogValuer env val of
             Some LogValue \<Rightarrow>
               andThen (LogValue (mem w)) (\<lambda>(evaluated, st).
                 rec (CValue evaluated) (w\<lparr>mem := st\<rparr>))
           | None \<Rightarrow> rec (CLoop rv) w))"

definition processAny_switch :: "callee \<Rightarrow> goval \<Rightarrow> walk \<Rightarrow> (Value \<times> walk) outcome" where
  "processAny_switch rec rv w =
     (case Kind rv of
        KStruct \<Rightarrow> rec (CStruct rv) w
      | KSlice \<Rightarrow> rec (CSlice rv) w
      | KArray \<Rightarrow> rec (CSlice rv) w
      | KMap \<Rightarrow> rec (CMap rv) w
      | KPointer \<Rightarrow> rec (CPointer rv) w
      | _ \<Rightarrow> returnAny (Interface rv) w)"

definition processAny_loop :: "methods \<Rightarrow> callee \<Rightarrow> goval \<Rightarrow> walk \<Rightarrow> (Value \<times> walk) outcome" where
  "processAny_loop env rec rv w =
     (if Kind rv = KPointer \<or> Kind rv = KInterface then
        (case IsNil rv of
           None \<Rightarrow> Panic
         | Some True \<Rightarrow> returnAny None w
         | Some False \<Rightarrow>
             (case Pointer rv of
                None \<Rightarrow> Panic
              | Some addr \<Rightarrow>
                  if visited w addr then returnAny (Interface rv) w
                  else
                    (let w1 = w\<lparr>visited := (visited w)(addr := True)\<rparr> in
                     case asLogValuer env (Interface rv) of
                       Some LogValue \<Rightarrow>
                         andThen (LogValue (mem w1)) (\<lambda>(evaluated, st).
                           rec (CValue evaluated) (w1\<lparr>mem := st\<rparr>))
                     | None \<Rightarrow>
                         (case cells (mem w1) addr of
                            None \<Rightarrow> Panic
                          | Some elem \<Rightarrow> rec (CLoop elem) w1))))
      else processAny_switch rec rv w)"

definition NumField :: "goval \<Rightarrow> StructField list option" where
  "NumField rv = (case underlying (typeOf rv) of StructT sfs \<Rightarrow> Some sfs | _ \<Rightarrow> None)"

definition fieldsOf :: "goval \<Rightarrow> goval list" where
  "fieldsOf rv = (case rv of VStruct _ fs \<Rightarrow> fs | _ \<Rightarrow> [])"

definition processStruct_body :: "callee \<Rightarrow> goval \<Rightarrow> walk \<Rightarrow> (Value \<times> walk) outcome" where
  "processStruct_body rec rv w =
     (case NumField rv of
        None \<Rightarrow> Panic
      | Some sfs \<Rightarrow>
          andThen (processStruct_fields (\<lambda>x. rec (CAny x)) sfs (fieldsOf rv) w) (\<lambda>(newStruct, w1).
            returnAny (Some (VStruct (typeOf rv) newStruct)) w1))"

definition elemType :: "gotype \<Rightarrow> gotype option" where
  "elemType t = (case underlying t of SliceT et \<Rightarrow> Some et | ArrayT _ et \<Rightarrow> Some et
                 | PtrT et \<Rightarrow> Some et | _ \<Rightarrow> None)"

definition processSliceOrArray_body :: "callee \<Rightarrow> goval \<Rightarrow> walk \<Rightarrow> (Value \<times> walk) outcome" where
  "processSliceOrArray_body rec rv w =
     (case IsNil rv of
        None \<Rightarrow> Panic
      | Some True \<Rightarrow> returnAny None w
      | Some False \<Rightarrow>
          (case rv of
             VSlice t (Some xs) \<Rightarrow>
               (case elemType t of
                  None \<Rightarrow> Panic
                | Some et \<Rightarrow>
                    andThen (processSlice_elems (\<lambda>x. rec (CAny x)) et xs w) (\<lambda>(newSlice, w1).
                      returnAny (Some (VSlice t (Some newSlice))) w1))
           | VAttrs (Some a) \<Rightarrow> processAttrs a w
           | _ \<Rightarrow> Panic))"

definition processMap_body :: "callee \<Rightarrow> goval \<Rightarrow> walk \<Rightarrow> (Value \<times> walk) outcome" where
  "processMap_body rec rv w =
     (case IsNil rv of
        None \<Rightarrow> Panic
      | Some True \<Rightarrow> returnAny None w
      | Some False \<Rightarrow>
          (case rv of
             VMap t (Some entries) \<Rightarrow>
               (case underlying t of
                  MapT kt vt \<Rightarrow>
                    andThen (processMap_entries (\<lambda>x. rec (CAny x)) kt vt entries [] w)
                      (\<lambda>(newMap, w1). returnAny (Some (VMap t (Some newMap))) w1)
                | _ \<Rightarrow> Panic)
           | _ \<Rightarrow> Panic))"

definition processPointer_body :: "callee \<Rightarrow> goval \<Rightarrow> walk \<Rightarrow> (Value \<times> walk) outcome" where
  "processPointer_body rec rv w =
     (case IsNil rv of
        None \<Rightarrow> Panic
      | Some True \<Rightarrow> returnAny None w
      | Some False \<Rightarrow>
          (case Pointer rv of
             None \<Rightarrow> Panic
           | Some addr \<Rightarrow>
               if visited w addr then returnAny (Interface rv) w
               else
                 (let w1 = w\<lparr>visited := (visited w)(addr := True)\<rparr> in
                  case cells (mem w1) addr of
                    None \<Rightarrow> Panic
                  | Some elem \<Rightarrow>
                      andThen (rec (CAny (Interface elem)) w1) (\<lambda>(processedValue, w2).
                        case elemType (typeOf rv) of
                          None \<Rightarrow> Panic
                        | Some et \<Rightarrow>
                            (let (newPtr, st) = alloc_cell (Zero et) (mem w2) in
                             case Any processedValue of
                               None \<Rightarrow> Panic
                             | Some newValue \<Rightarrow>
                                 returnAny (Some (VPtr (PtrT et) (Some newPtr)))
                                   (w2\<lparr>mem :=
                                      (if AssignableTo (typeOf newValue) et
                                       then st\<lparr>cells := (cells st)(newPtr \<mapsto> Set_val et newValue)\<rparr>
                                       else st)\<rparr>))))))"

text \<open>
  The functions call each other to the depth given: \<open>run n env c\<close> is the call \<open>c\<close>
  with \<open>n\<close> nested calls to spare.
\<close>

primrec run :: "nat \<Rightarrow> methods \<Rightarrow> callee" where
  "run 0 env = (\<lambda>c w. OutOfFuel)"
| "run (Suc n) env = (\<lambda>c w.
     case c of
       CValue v \<Rightarrow> processValue_body env (run n env) v w
     | CAny val \<Rightarrow> processAny_body env (run n env) val w
     | CLoop rv \<Rightarrow> processAny_loop env (run n env) rv w
     | CStruct rv \<Rightarrow> processStruct_body (run n env) rv w
     | CSlice rv \<Rightarrow> processSliceOrArray_body (run n env) rv w
     | CMap rv \<Rightarrow> processMap_body (run n env) rv w
     | CPointer rv \<Rightarrow> processPointer_body (run n env) rv w)"

definition processValue :: "nat \<Rightarrow> methods \<Rightarrow> Value \<Rightarrow> walk \<Rightarrow> (Value \<times> walk) outcome" where
  "processValue n env v w = run n env (CValue v) w"

definition processAny :: "nat \<Rightarrow> methods \<Rightarrow> goval option \<Rightarrow> walk \<Rightarrow> (Value \<times> walk) outcome" where
  "processAny n env val w = run n env (CAny val) w"

definition processStruct :: "nat \<Rightarrow> methods \<Rightarrow> goval \<Rightarrow> walk \<Rightarrow> (Value \<times> walk) outcome" where
  "processStruct n env rv w = run n env (CStruct rv) w"

definition processSliceOrArray :: "nat \<Rightarrow> methods \<Rightarrow> goval \<Rightarrow> walk \<Rightarrow> (Value \<times> walk) outcome" where
  "processSliceOrArray n env rv w = run n env (CSlice rv) w"

definition processMap :: "nat \<Rightarrow> methods \<Rightarrow> goval \<Rightarrow> walk \<Rightarrow> (Value \<times> walk) outcome" where
  "processMap n env rv w = run n env (CMap rv) w"

definition processPointer :: "nat \<Rightarrow> methods \<Rightarrow> goval \<Rightarrow> walk \<Rightarrow> (Value \<times> walk) outcome" where
  "processPointer n env rv w = run n env (CPointer rv) w"

text \<open>
  \<^verbatim>\<open>ReplaceAttr\<close>: the attribute is a copy, the map is made anew, \<^verbatim>\<open>groups\<close> is not
  read.
\<close>

definition ReplaceAttr ::
  "nat \<Rightarrow> methods \<Rightarrow> string list \<Rightarrow> Attr \<Rightarrow> store \<Rightarrow> (Attr \<times> store) outcome" where
  "ReplaceAttr n env groups a st =
     andThen (processValue n env (Value a) \<lparr>visited = (\<lambda>_. False), mem = st\<rparr>)
       (\<lambda>(v, w). Ok (a\<lparr>Value := v\<rparr>, mem w))"


section \<open>The programs of the repository\<close>

text \<open>
  The types and the value of \<^verbatim>\<open>example/main.go\<close>: \<^verbatim>\<open>Nested\<close> with its tagged
  \<^verbatim>\<open>Secret\<close>, \<^verbatim>\<open>Custom\<close> with its \<^verbatim>\<open>LogValue\<close> method, and \<^verbatim>\<open>Example\<close>, whose field
  \<^verbatim>\<open>Nested\<close> is a pointer. The variable the pointer of \<^verbatim>\<open>data\<close> points to is at
  address 1 of \<open>main_store\<close>.
\<close>

definition Nested :: gotype where
  "Nested = Named ''Nested'' (StructT
     [StructField ''Secret'' [] (Basic TString) [(''sentinel'', ''true'')],
      StructField ''Data'' [] (Basic TString) [(''json'', ''data'')]])"

definition Custom :: gotype where
  "Custom = Named ''Custom'' (StructT [StructField ''Enum'' [] (Basic TInt) []])"

definition Example :: gotype where
  "Example = Named ''Example'' (StructT
     [StructField ''ID'' [] (Basic TInt) [],
      StructField ''Name'' [] (Basic TString) [],
      StructField ''Nested'' [] (PtrT Nested) [],
      StructField ''Custom'' [] Custom [],
      StructField ''Friends'' [] (SliceT (Basic TString)) [(''sentinel'', ''true'')]])"

definition Custom_LogValue :: "goval \<Rightarrow> store \<Rightarrow> (Value \<times> store) outcome" where
  "Custom_LogValue c st =
     (case c of
        VStruct _ [VInt _ Enum] \<Rightarrow>
          Ok (GroupValue_of
                [\<lparr>Key = ''enum'',
                  Value = StringV (if Enum = 1 then ''One''
                                   else if Enum = 2 then ''Two'' else ''Unknown'')\<rparr>] st)
      | _ \<Rightarrow> Panic)"

text \<open>
  The method has a value receiver, so \<^verbatim>\<open>Custom\<close> and \<^verbatim>\<open>*Custom\<close> both implement
  \<^verbatim>\<open>slog.LogValuer\<close>; through a pointer the receiver is dereferenced first, which
  panics for nil.
\<close>

definition main_methods :: methods where
  "main_methods t =
     (if t = Custom then Some Custom_LogValue
      else if t = PtrT Custom then
        Some (\<lambda>p st. case p of
                 VPtr _ (Some a) \<Rightarrow>
                   (case cells st a of None \<Rightarrow> Panic | Some c \<Rightarrow> Custom_LogValue c st)
               | _ \<Rightarrow> Panic)
      else None)"

definition str :: "string \<Rightarrow> goval" where
  "str s = VString (Basic TString) s"

definition data :: "addr option \<Rightarrow> goval" where
  "data nested = VStruct Example
     [VInt (Basic TInt) 123, str ''Alice'', VPtr (PtrT Nested) nested,
      VStruct Custom [VInt (Basic TInt) 2],
      VSlice (SliceT (Basic TString)) (Some [str ''Bob'', str ''Charlie''])]"

definition main_store :: store where
  "main_store =
     \<lparr>cells = [1 \<mapsto> VStruct Nested [str ''TopSecret'', str ''PublicData'']],
      arrays = Map.empty, brk = 2\<rparr>"

text \<open>
  The types of the benchmarks (\<^verbatim>\<open>Nested\<close> held by value) and the value of
  \<^verbatim>\<open>BenchmarkReplaceAttr\<close>.
\<close>

definition bench_Nested :: gotype where
  "bench_Nested = Named ''Nested'' (StructT
     [StructField ''Secret'' [] (Basic TString) [(''sentinel'', ''true'')],
      StructField ''Data'' [] (Basic TString) []])"

definition bench_Example :: gotype where
  "bench_Example = Named ''Example'' (StructT
     [StructField ''ID'' [] (Basic TInt) [],
      StructField ''Name'' [] (Basic TString) [],
      StructField ''Nested'' [] bench_Nested [],
      StructField ''Friends'' [] (SliceT (Basic TString)) [(''sentinel'', ''true'')]])"

definition bench_data :: goval where
  "bench_data = VStruct bench_Example
     [VInt (Basic TInt) 123, str ''Alice'',
      VStruct bench_Nested [str ''TopSecret'', str ''PublicData''],
      VSlice (SliceT (Basic TString)) (Some [str ''Bob'', str ''Charlie''])]"

definition empty_store :: store where
  "empty_store = \<lparr>cells = Map.empty, arrays = Map.empty, brk = 1\<rparr>"

definition no_methods :: methods where
  "no_methods t = None"

text \<open>
  A type whose pointer resolves to what its field holds:
  \<^verbatim>\<open>type Node struct{ Next any }\<close> with
  \<^verbatim>\<open>func (n *Node) LogValue() slog.Value { return slog.AnyValue(n.Next) }\<close>. In
  \<open>node_store\<close> the node at address 1 has itself as \<^verbatim>\<open>Next\<close>.
\<close>

definition Node :: gotype where
  "Node = Named ''Node'' (StructT [StructField ''Next'' [] AnyT []])"

definition Node_LogValue :: "goval \<Rightarrow> store \<Rightarrow> (Value \<times> store) outcome" where
  "Node_LogValue n st =
     (case n of
        VPtr _ (Some a) \<Rightarrow>
          (case cells st a of
             Some (VStruct _ [VIface _ Next]) \<Rightarrow> Ok (AnyValue Next st)
           | _ \<Rightarrow> Panic)
      | _ \<Rightarrow> Panic)"

definition node_methods :: methods where
  "node_methods t = (if t = PtrT Node then Some Node_LogValue else None)"

definition node_store :: store where
  "node_store =
     \<lparr>cells = [1 \<mapsto> VStruct Node [VIface AnyT (Some (VPtr (PtrT Node) (Some 1)))]],
      arrays = Map.empty, brk = 2\<rparr>"

definition group_store :: store where
  "group_store =
     \<lparr>cells = Map.empty,
      arrays = [1 \<mapsto> [\<lparr>Key = ''user'',
                        Value = AnyV (Some (VStruct bench_Nested
                                  [str ''TopSecret'', str ''PublicData'']))\<rparr>]],
      brk = 2\<rparr>"

text \<open>
  \<open>group_store\<close> holds the array of
  \<^verbatim>\<open>slog.Group("g", slog.Any("user", Nested{"TopSecret", "PublicData"}))\<close> at address 1.
\<close>

text \<open>A struct with an unexported field that carries the tag.\<close>

definition Account :: gotype where
  "Account = Named ''Account'' (StructT
     [StructField ''Owner'' [] (Basic TString) [],
      StructField ''password'' ''main'' (Basic TString) [(''sentinel'', ''true'')]])"

section \<open>What the specification says of a mapping\<close>

text \<open>
  The specification describes the walk over a mapping in two steps: every key and
  every value is redacted on its own, in the order of the entries, and an entry is
  then inserted when both results are type-compatible with the mapping. \<open>redact_entries\<close>
  is the first step, \<open>compatible\<close> the test with the conversion of \<^verbatim>\<open>SetMapIndex\<close>,
  \<open>insert_all\<close> the insertions. \<open>redacted sfs fs fs'\<close> says of the fields \<open>fs'\<close> of a
  struct that they are as many as \<open>fs\<close> and that every exported field with a non-empty
  \<^verbatim>\<open>sentinel\<close> tag is the zero value of its type.
\<close>

fun redact_entries ::
  "(goval option \<Rightarrow> walk \<Rightarrow> (Value \<times> walk) outcome) \<Rightarrow> (goval \<times> goval) list \<Rightarrow> walk
     \<Rightarrow> ((goval option \<times> goval option) list \<times> walk) outcome" where
  "redact_entries pa [] w = Ok ([], w)"
| "redact_entries pa ((key, val) # rest) w =
     andThen (pa (Interface key) w) (\<lambda>(k', w1).
     andThen (pa (Interface val) w1) (\<lambda>(v', w2).
     andThen (redact_entries pa rest w2) (\<lambda>(rs, w3). Ok ((Any k', Any v') # rs, w3))))"

fun compatible :: "gotype \<Rightarrow> gotype \<Rightarrow> goval option \<times> goval option \<Rightarrow> (goval \<times> goval) option" where
  "compatible kt vt (Some k', Some v') =
     (if AssignableTo (typeOf k') kt \<and> AssignableTo (typeOf v') vt
      then Some (Set_val kt k', Set_val vt v') else None)"
| "compatible kt vt _ = None"

definition insert_all :: "(goval \<times> goval) list \<Rightarrow> (goval \<times> goval) list \<Rightarrow> (goval \<times> goval) list" where
  "insert_all xs m = fold (\<lambda>(k, v). AList.update k v) xs m"

definition redacted :: "StructField list \<Rightarrow> goval list \<Rightarrow> goval list \<Rightarrow> bool" where
  "redacted sfs fs fs' =
     (length fs' = length fs \<and>
      (\<forall>i < length sfs. i < length fs \<longrightarrow> CanInterface (sfs ! i)
          \<longrightarrow> Tag_Get (Tag (sfs ! i)) ''sentinel'' \<noteq> [] \<longrightarrow> fs' ! i = Zero (Type (sfs ! i))))"

section \<open>Two maps\<close>

text \<open>
  \<^verbatim>\<open>map[Key]Nested\<close> with two keys that differ in their tagged field only, and
  \<^verbatim>\<open>map[string]Nested\<close> with two entries.
\<close>

definition Key_t :: gotype where
  "Key_t = Named ''Key'' (StructT
     [StructField ''Tenant'' [] (Basic TString) [],
      StructField ''Token'' [] (Basic TString) [(''sentinel'', ''true'')]])"

definition sessions :: goval where
  "sessions = VMap (MapT Key_t bench_Nested) (Some
     [(VStruct Key_t [str ''acme'', str ''t1''], VStruct bench_Nested [str ''TopSecret'', str ''one'']),
      (VStruct Key_t [str ''acme'', str ''t2''], VStruct bench_Nested [str ''TopSecret'', str ''two''])])"

definition by_name :: goval where
  "by_name = VMap (MapT (Basic TString) bench_Nested) (Some
     [(str ''alice'', VStruct bench_Nested [str ''TopSecret'', str ''one'']),
      (str ''bob'', VStruct bench_Nested [str ''Hidden'', str ''two''])])"

section \<open>Values without groups\<close>

text \<open>
  \<open>groupless v\<close>: no \<^verbatim>\<open>[]slog.Attr\<close> occurs in \<open>v\<close>, as far as it can be read without
  following a pointer; \<open>groupless_store\<close>: the same of every variable behind a pointer.
  \<open>groupless_call\<close> are the calls of the walker on such values, and \<open>keeps_mem pa\<close>
  says of a callee that it returns the store it was given.
\<close>

fun groupless :: "goval \<Rightarrow> bool" where
  "groupless (VAttrs _) = False"
| "groupless (VSlice _ (Some xs)) = (\<forall>x \<in> set xs. groupless x)"
| "groupless (VArray _ xs) = (\<forall>x \<in> set xs. groupless x)"
| "groupless (VMap _ (Some m)) = (\<forall>e \<in> set m. groupless (fst e) \<and> groupless (snd e))"
| "groupless (VStruct _ fs) = (\<forall>f \<in> set fs. groupless f)"
| "groupless (VIface _ (Some v)) = groupless v"
| "groupless _ = True"

definition groupless_any :: "goval option \<Rightarrow> bool" where
  "groupless_any x = (case x of None \<Rightarrow> True | Some v \<Rightarrow> groupless v)"

definition groupless_store :: "store \<Rightarrow> bool" where
  "groupless_store st = (\<forall>a v. cells st a = Some v \<longrightarrow> groupless v)"

fun groupless_call :: "call \<Rightarrow> bool" where
  "groupless_call (CValue _) = False"
| "groupless_call (CAny x) = groupless_any x"
| "groupless_call (CLoop rv) = groupless rv"
| "groupless_call (CStruct rv) = groupless rv"
| "groupless_call (CSlice rv) = groupless rv"
| "groupless_call (CMap rv) = groupless rv"
| "groupless_call (CPointer _) = False"

definition keeps_mem :: "(goval option \<Rightarrow> walk \<Rightarrow> (Value \<times> walk) outcome) \<Rightarrow> bool" where
  "keeps_mem pa =
     (\<forall>x w r w'. groupless_any x \<longrightarrow> groupless_store (mem w) \<longrightarrow> pa x w = Ok (r, w')
        \<longrightarrow> mem w' = mem w)"

text \<open>
  One pointer stored under two keys of a \<^verbatim>\<open>map[string]any\<close>, in the two orders in
  which \<^verbatim>\<open>MapRange\<close> may yield the entries; \<open>seen\<close> is the walk over \<open>main_store\<close> after
  the pointer has been followed.
\<close>

definition ptr :: goval where
  "ptr = VPtr (PtrT Nested) (Some 1)"

definition twice_ab :: "(goval \<times> goval) list" where
  "twice_ab = [(str ''a'', VIface AnyT (Some ptr)), (str ''b'', VIface AnyT (Some ptr))]"

definition twice_ba :: "(goval \<times> goval) list" where
  "twice_ba = [(str ''b'', VIface AnyT (Some ptr)), (str ''a'', VIface AnyT (Some ptr))]"

definition seen :: walk where
  "seen = \<lparr>visited = (\<lambda>_. False)(1 := True), mem = main_store\<rparr>"

text \<open>
  A slice type with a method:
  \<^verbatim>\<open>type Tags []string\<close> with
  \<^verbatim>\<open>func (t Tags) LogValue() slog.Value { return slog.StringValue("tags") }\<close>.
\<close>

definition Tags :: gotype where
  "Tags = Named ''Tags'' (SliceT (Basic TString))"

definition tags_methods :: methods where
  "tags_methods t = (if t = Tags then Some (\<lambda>t st. Ok (StringV ''tags'', st)) else None)"

definition fresh :: "store \<Rightarrow> walk" where
  "fresh st = \<lparr>visited = (\<lambda>_. False), mem = st\<rparr>"

section \<open>Values that hold no reference\<close>

text \<open>
  The values on which a second walk can be compared with the first. A field is
  \<open>walked\<close> when the loop of \<^verbatim>\<open>processStruct\<close> hands it to \<^verbatim>\<open>processAny\<close>: it is exported
  and its \<^verbatim>\<open>sentinel\<close> tag is empty. A value is \<open>plain\<close> when it is built from booleans,
  strings and integers (of predeclared or defined types) by structs, slices and maps
  alone, every walked field, element, key and value being of exactly the declared
  type: no pointer, no array, no slot of interface type, no \<^verbatim>\<open>[]slog.Attr\<close>. Fields that
  are not walked may hold anything. \<open>plain_value\<close> lifts this to a \<^verbatim>\<open>slog.Value\<close>:
  the nil \<^verbatim>\<open>any\<close> and the typed kinds of the library are plain, a group is not.
\<close>

definition walked :: "StructField \<Rightarrow> bool" where
  "walked sf = (CanInterface sf \<and> Tag_Get (Tag sf) ''sentinel'' = [])"

definition basicKind :: "gotype \<Rightarrow> bool" where
  "basicKind t = (case kindOfType t of KBasic _ \<Rightarrow> True | _ \<Rightarrow> False)"

fun plain :: "goval \<Rightarrow> bool" where
  "plain (VBool t b) = basicKind t"
| "plain (VString t s) = basicKind t"
| "plain (VInt t i) = basicKind t"
| "plain (VStruct t fs) =
     (case underlying t of
        StructT sfs \<Rightarrow> list_all2 (\<lambda>sf f. walked sf \<longrightarrow> plain f \<and> typeOf f = Type sf) sfs fs
      | _ \<Rightarrow> False)"
| "plain (VSlice t xs) =
     (case underlying t of
        SliceT et \<Rightarrow> (case xs of None \<Rightarrow> True | Some ys \<Rightarrow> list_all (\<lambda>x. plain x \<and> typeOf x = et) ys)
      | _ \<Rightarrow> False)"
| "plain (VMap t m) =
     (case underlying t of
        MapT kt vt \<Rightarrow>
          (case m of None \<Rightarrow> True
           | Some es \<Rightarrow> list_all (\<lambda>e. plain (fst e) \<and> typeOf (fst e) = kt
                                      \<and> plain (snd e) \<and> typeOf (snd e) = vt) es)
      | _ \<Rightarrow> False)"
| "plain _ = False"

definition plain_entry :: "gotype \<Rightarrow> gotype \<Rightarrow> goval \<times> goval \<Rightarrow> bool" where
  "plain_entry kt vt e =
     (plain (fst e) \<and> typeOf (fst e) = kt \<and> plain (snd e) \<and> typeOf (snd e) = vt)"

definition fields_plain :: "StructField list \<Rightarrow> goval list \<Rightarrow> bool" where
  "fields_plain sfs fs = list_all2 (\<lambda>sf f. walked sf \<longrightarrow> plain f \<and> typeOf f = Type sf) sfs fs"

fun plain_value :: "Value \<Rightarrow> bool" where
  "plain_value (AnyV None) = True"
| "plain_value (AnyV (Some v)) = plain v"
| "plain_value (GroupV a) = False"
| "plain_value v = True"

text \<open>
  The order in which \<^verbatim>\<open>MapRange\<close> yields the entries of a map is not fixed by the map.
  \<open>reorder p v\<close> is the value \<open>v\<close> with the entries of every map in it, at any
  depth below structs, slices and values of maps, yielded as \<open>p\<close> arranges them; \<open>p\<close> is
  \<open>valid\<close> when it returns the entries it is given, in some order. The keys are left as
  they are: a key that can be inserted holds no map.
\<close>

fun reorder :: "((goval \<times> goval) list \<Rightarrow> (goval \<times> goval) list) \<Rightarrow> goval \<Rightarrow> goval" where
  "reorder p (VStruct t fs) = VStruct t (map (reorder p) fs)"
| "reorder p (VSlice t (Some xs)) = VSlice t (Some (map (reorder p) xs))"
| "reorder p (VMap t (Some es)) = VMap t (Some (p (map (\<lambda>e. (fst e, reorder p (snd e))) es)))"
| "reorder p v = v"

definition valid :: "((goval \<times> goval) list \<Rightarrow> (goval \<times> goval) list) \<Rightarrow> bool" where
  "valid p = (\<forall>es. set (p es) = set es \<and> (distinct (map fst es) \<longrightarrow> distinct (map fst (p es))))"

fun reorder_value :: "((goval \<times> goval) list \<Rightarrow> (goval \<times> goval) list) \<Rightarrow> Value \<Rightarrow> Value" where
  "reorder_value p (AnyV (Some v)) = AnyV (Some (reorder p v))"
| "reorder_value p v = v"

text \<open>
  What the walker stores in a slot of type \<open>T\<close> that held \<open>old\<close>, given the processed
  value: \<^verbatim>\<open>if newValue.Type().AssignableTo(T) { slot.Set(newValue) }\<close>.
\<close>

definition slot :: "gotype \<Rightarrow> goval \<Rightarrow> goval \<Rightarrow> goval" where
  "slot T newValue old = (if AssignableTo (typeOf newValue) T then Set_val T newValue else old)"

text \<open>
  The properties of a callee \<open>pa\<close> (the function \<^verbatim>\<open>processAny\<close> at some depth) that the
  loops preserve. The result of a plain value is \<open>related\<close> to it: of the same type,
  or a boolean, string or integer of another named type (\<^verbatim>\<open>slog.AnyValue\<close> turns an
  \<^verbatim>\<open>int\<close> into an \<^verbatim>\<open>int64\<close>). A value is \<open>fixed\<close> when a call on it returns it from
  any walk, which it leaves as it was, and \<open>stable\<close> when it is so in whatever order
  its maps yield their entries. \<open>settles pa v w r w'\<close> says of one call on \<open>v\<close> that
  returned \<open>r\<close>: the walk is left as it was, the result is the same from any walk,
  and the value in the result is plain, related to \<open>v\<close>, returned again by a call on
  it, and stable. \<open>settled pa\<close> says so of every call on a plain value. \<open>scalar_ok\<close> is
  the same for \<^verbatim>\<open>slog.AnyValue\<close> on a boolean, string or integer. An entry is kept in
  the new map when its key is fixed and can be hashed and its value is stable.
\<close>

definition related :: "goval \<Rightarrow> goval \<Rightarrow> bool" where
  "related v v' =
     (typeOf v' = typeOf v
      \<or> (basicKind (typeOf v) \<and> basicKind (typeOf v') \<and> HasName (typeOf v) \<and> HasName (typeOf v')))"

definition fixed :: "(goval option \<Rightarrow> walk \<Rightarrow> (Value \<times> walk) outcome) \<Rightarrow> gotype \<Rightarrow> goval \<Rightarrow> bool" where
  "fixed pa T v =
     (plain v \<and> typeOf v = T \<and> (\<exists>pv. (\<forall>w. pa (Interface v) w = Ok (pv, w)) \<and> Any pv = Some v))"

definition stable :: "(goval option \<Rightarrow> walk \<Rightarrow> (Value \<times> walk) outcome) \<Rightarrow> gotype \<Rightarrow> goval \<Rightarrow> bool" where
  "stable pa T v = (\<forall>p. valid p \<longrightarrow> fixed pa T (reorder p v))"

definition settles ::
  "(goval option \<Rightarrow> walk \<Rightarrow> (Value \<times> walk) outcome) \<Rightarrow> goval \<Rightarrow> walk \<Rightarrow> Value \<Rightarrow> walk \<Rightarrow> bool" where
  "settles pa v w r w' =
     (w' = w \<and> (\<forall>w2. pa (Some v) w2 = Ok (r, w2))
      \<and> (\<forall>v'. Any r = Some v' \<longrightarrow>
             plain v' \<and> related v v' \<and> pa (Some v') w = Ok (r, w) \<and> stable pa (typeOf v') v'))"

definition settled :: "(goval option \<Rightarrow> walk \<Rightarrow> (Value \<times> walk) outcome) \<Rightarrow> bool" where
  "settled pa =
     (\<forall>v w r w'. plain v \<longrightarrow> pa (Some v) w = Ok (r, w') \<longrightarrow> settles pa v w r w')"

definition scalar_ok :: "goval \<Rightarrow> Value \<Rightarrow> bool" where
  "scalar_ok v r =
     ((\<forall>w. returnAny (Some v) w = Ok (r, w))
      \<and> (\<forall>v'. Any r = Some v' \<longrightarrow>
             plain v' \<and> related v v' \<and> basicKind (typeOf v')
             \<and> (\<forall>w. returnAny (Some v') w = Ok (r, w))))"

definition fixed_entry ::
  "(goval option \<Rightarrow> walk \<Rightarrow> (Value \<times> walk) outcome) \<Rightarrow> gotype \<Rightarrow> gotype \<Rightarrow> goval \<times> goval \<Rightarrow> bool" where
  "fixed_entry pa kt vt e = (fixed pa kt (fst e) \<and> fixed pa vt (snd e) \<and> hashable (fst e))"

definition kept_entry ::
  "(goval option \<Rightarrow> walk \<Rightarrow> (Value \<times> walk) outcome) \<Rightarrow> gotype \<Rightarrow> gotype \<Rightarrow> goval \<times> goval \<Rightarrow> bool" where
  "kept_entry pa kt vt e = (fixed pa kt (fst e) \<and> stable pa vt (snd e) \<and> hashable (fst e))"

text \<open>
  One pointer stored twice in a \<^verbatim>\<open>[]any\<close>: \<^verbatim>\<open>p := &Nested{...}; []any{p, p}\<close>, over
  \<open>main_store\<close>.
\<close>

definition both :: goval where
  "both = VSlice (SliceT AnyT) (Some [VIface AnyT (Some ptr), VIface AnyT (Some ptr)])"


section \<open>Evaluation\<close>

lemmas walk_defs =
  ReplaceAttr_def processValue_def processAny_def processStruct_def
  processSliceOrArray_def processMap_def processPointer_def
  processValue_body_def processAny_body_def processAny_loop_def processAny_switch_def
  processStruct_body_def processSliceOrArray_body_def processMap_body_def
  processPointer_body_def returnAny_def andThen_def Kind_of_def asLogValuer_def Kind_def
  IsNil_def Pointer_def NumField_def fieldsOf_def elemType_def CanInterface_def Tag_Get_def
  AssignableTo_def directlyAssignable_def implements_def Set_val_def signed_def
  GroupValue_def GroupValue_of_def alloc_array_def alloc_cell_def isEmptyGroup_def
  processAttrs_def fresh_def

lemmas program_defs =
  Nested_def Custom_def Example_def Custom_LogValue_def main_methods_def str_def data_def
  main_store_def bench_Nested_def bench_Example_def bench_data_def empty_store_def
  no_methods_def Node_def Node_LogValue_def node_methods_def node_store_def group_store_def
  Account_def Tags_def tags_methods_def Key_t_def sessions_def by_name_def ptr_def
  twice_ab_def twice_ba_def seen_def both_def


lemma kindOfType_underlying: "kindOfType (underlying t) = kindOfType t"
  by (induction t) simp_all

lemma AnyValue_nil [simp]: "AnyValue None st = (AnyV None, st)"
  by simp

lemma returnAny_nil [simp]: "returnAny None w = Ok (AnyV None, w)"
  by (simp add: returnAny_def)

lemma returnAny_slice [simp]:
  "returnAny (Some (VSlice t xs)) w = Ok (AnyV (Some (VSlice t xs)), w)"
  by (simp add: returnAny_def)

lemma returnAny_map [simp]:
  "returnAny (Some (VMap t m)) w = Ok (AnyV (Some (VMap t m)), w)"
  by (simp add: returnAny_def)

lemma returnAny_struct [simp]:
  "returnAny (Some (VStruct t fs)) w = Ok (AnyV (Some (VStruct t fs)), w)"
  by (simp add: returnAny_def)

lemma returnAny_ptr [simp]:
  "returnAny (Some (VPtr t p)) w = Ok (AnyV (Some (VPtr t p)), w)"
  by (simp add: returnAny_def)

lemma andThen_simps [simp]:
  "andThen (Ok x) f = f x" "andThen Panic f = Panic" "andThen OutOfFuel f = OutOfFuel"
  by (simp_all add: andThen_def)

section \<open>The loop over the fields of a struct\<close>

lemma processStruct_fields_length:
  "processStruct_fields pa sfs fs w = Ok (fs', w') \<Longrightarrow> length fs' = length fs"
proof (induction pa sfs fs w arbitrary: fs' w' rule: processStruct_fields.induct)
  case (1 pa structField sfs newField fs w)
  then show ?case
    by (auto simp add: andThen_def split: if_splits outcome.splits option.splits prod.splits)
qed simp_all

lemma processStruct_fields_sensitive:
  "processStruct_fields pa sfs fs w = Ok (fs', w') \<Longrightarrow> i < length sfs \<Longrightarrow> i < length fs
   \<Longrightarrow> CanInterface (sfs ! i) \<Longrightarrow> Tag_Get (Tag (sfs ! i)) ''sentinel'' \<noteq> []
   \<Longrightarrow> fs' ! i = Zero (Type (sfs ! i))"
proof (induction pa sfs fs w arbitrary: fs' w' i rule: processStruct_fields.induct)
  case (1 pa structField sfs newField fs w)
  then show ?case
    by (cases i)
      (auto simp add: andThen_def split: if_splits outcome.splits option.splits prod.splits)
qed simp_all

lemma processStruct_fields_unexported:
  "processStruct_fields pa sfs fs w = Ok (fs', w') \<Longrightarrow> i < length sfs \<Longrightarrow> i < length fs
   \<Longrightarrow> \<not> CanInterface (sfs ! i) \<Longrightarrow> fs' ! i = fs ! i"
proof (induction pa sfs fs w arbitrary: fs' w' i rule: processStruct_fields.induct)
  case (1 pa structField sfs newField fs w)
  then show ?case
    by (cases i)
      (auto simp add: andThen_def split: if_splits outcome.splits option.splits prod.splits)
qed simp_all

lemma run_CAny: "(\<lambda>x. run m env (CAny x)) = processAny m env"
  by (rule ext)+ (simp add: processAny_def)

lemma processStruct_Ok:
  assumes "processStruct n env rv w = Ok (r, w')"
  shows "\<exists>m sfs fs'. n = Suc m \<and> NumField rv = Some sfs
     \<and> processStruct_fields (processAny m env) sfs (fieldsOf rv) w = Ok (fs', w')
     \<and> r = AnyV (Some (VStruct (typeOf rv) fs'))"
proof (cases n)
  case 0
  with assms show ?thesis by (simp add: processStruct_def)
next
  case (Suc m)
  with assms show ?thesis
    by (auto simp add: processStruct_def processStruct_body_def run_CAny andThen_def
        split: option.splits outcome.splits prod.splits)
qed

section \<open>The loop over the entries of a map\<close>

lemma insert_all_simps [simp]:
  "insert_all [] m = m" "insert_all ((k, v) # xs) m = insert_all xs (AList.update k v m)"
  by (simp_all add: insert_all_def)

lemma redact_entries_length:
  "redact_entries pa entries w = Ok (rs, w') \<Longrightarrow> length rs = length entries"
proof (induction entries arbitrary: w rs)
  case Nil
  then show ?case by simp
next
  case (Cons e entries)
  then show ?case
    by (cases e) (auto simp add: andThen_def split: outcome.splits prod.splits)
qed

lemma processMap_entries_refines:
  "processMap_entries pa kt vt entries acc w = Ok (newMap, w')
   \<Longrightarrow> \<exists>rs. redact_entries pa entries w = Ok (rs, w')
          \<and> newMap = insert_all (List.map_filter (compatible kt vt) rs) acc"
proof (induction entries arbitrary: acc w)
  case Nil
  then show ?case by (simp add: List.map_filter_simps)
next
  case (Cons e entries)
  obtain key val where e: "e = (key, val)" by (cases e)
  from Cons.prems e obtain k' w1 v' w2 where
    k: "pa (Interface key) w = Ok (k', w1)" and v: "pa (Interface val) w1 = Ok (v', w2)"
    by (auto simp add: andThen_def split: outcome.splits prod.splits)
  from Cons.prems e k v obtain x where x: "Any k' = Some x"
    by (auto split: option.splits)
  show ?case
  proof (cases "AssignableTo (typeOf x) kt")
    case False
    with Cons.prems e k v x have "processMap_entries pa kt vt entries acc w2 = Ok (newMap, w')"
      by simp
    from Cons.IH [OF this] False e k v x show ?thesis
      by (cases "Any v'") (auto simp add: List.map_filter_simps)
  next
    case True
    note ak = this
    from Cons.prems e k v x True obtain y where y: "Any v' = Some y"
      by (auto split: option.splits)
    show ?thesis
    proof (cases "AssignableTo (typeOf y) vt")
      case False
      with Cons.prems e k v x y ak have "processMap_entries pa kt vt entries acc w2 = Ok (newMap, w')"
        by simp
      from Cons.IH [OF this] False e k v x y show ?thesis
        by (auto simp add: List.map_filter_simps)
    next
      case True
      with Cons.prems e k v x y ak have
        "processMap_entries pa kt vt entries
           (AList.update (Set_val kt x) (Set_val vt y) acc) w2 = Ok (newMap, w')"
        by (auto split: if_splits)
      from Cons.IH [OF this] True ak e k v x y show ?thesis
        by (auto simp add: List.map_filter_simps)
    qed
  qed
qed

lemma insert_all_length: "length (insert_all xs m) \<le> length m + length xs"
proof (induction xs arbitrary: m)
  case Nil
  then show ?case by simp
next
  case (Cons p xs)
  obtain k v where p: "p = (k, v)" by (cases p)
  have "length (AList.update k v m) \<le> Suc (length m)"
    by (induction m) auto
  with Cons.IH [of "AList.update k v m"] p show ?case by simp
qed

lemma insert_all_distinct: "distinct (map fst m) \<Longrightarrow> distinct (map fst (insert_all xs m))"
proof (induction xs arbitrary: m)
  case Nil
  then show ?case by simp
next
  case (Cons p xs)
  then show ?case by (cases p) (simp add: distinct_update)
qed

lemma map_filter_length: "length (List.map_filter f xs) \<le> length xs"
  by (simp add: List.map_filter_def)

lemma insert_all_append:
  "distinct (map fst xs) \<Longrightarrow> fst ` set xs \<inter> fst ` set m = {} \<Longrightarrow> insert_all xs m = m @ xs"
proof (induction xs arbitrary: m)
  case Nil
  then show ?case by simp
next
  case (Cons p xs)
  obtain k v where p: "p = (k, v)" by (cases p)
  from Cons.prems p have "k \<notin> fst ` set m" by auto
  then have u: "AList.update k v m = m @ [(k, v)]"
    by (induction m) auto
  from Cons.prems p have "insert_all xs (m @ [(k, v)]) = (m @ [(k, v)]) @ xs"
    by (intro Cons.IH) auto
  with u p show ?case by simp
qed


lemma processAny_string:
  assumes "processAny m env (Some (VString (Basic TString) s)) w = Ok (r, w')"
    and "env (Basic TString) = None"
  shows "r = StringV s \<and> w' = w"
proof -
  from assms(1) obtain m1 where m: "m = Suc m1"
    by (cases m) (simp_all add: processAny_def)
  from assms m obtain m2 where m1: "m1 = Suc m2"
    by (cases m1) (simp_all add: processAny_def processAny_body_def asLogValuer_def)
  from assms m m1 show ?thesis
    by (auto simp add: processAny_def processAny_body_def asLogValuer_def processAny_loop_def
        processAny_switch_def Kind_def returnAny_def)
qed

lemma processAny_struct:
  assumes "processAny m env (Some rv) w = Ok (r, w')"
    and "env (typeOf rv) = None" and "Kind rv = KStruct"
  shows "\<exists>k. processStruct k env rv w = Ok (r, w')"
proof -
  from assms(1) obtain m1 where m: "m = Suc m1"
    by (cases m) (simp_all add: processAny_def)
  from assms m obtain m2 where m1: "m1 = Suc m2"
    by (cases m1) (simp_all add: processAny_def processAny_body_def asLogValuer_def)
  from assms m m1 have "processStruct m2 env rv w = Ok (r, w')"
    by (simp add: processAny_def processAny_body_def asLogValuer_def processAny_loop_def
        processAny_switch_def processStruct_def)
  then show ?thesis ..
qed

lemma processAny_struct_redacted:
  assumes "processAny m env (Some (VStruct vt fs)) w = Ok (r, w')"
    and "env vt = None" and "underlying vt = StructT sfs"
  shows "\<exists>fs'. r = AnyV (Some (VStruct vt fs')) \<and> redacted sfs fs fs'"
proof -
  have k: "Kind (VStruct vt fs) = KStruct"
    using assms(3) kindOfType_underlying [of vt] by (simp add: Kind_def)
  from processAny_struct [OF assms(1) _ k] assms(2) obtain n
    where "processStruct n env (VStruct vt fs) w = Ok (r, w')" by auto
  from processStruct_Ok [OF this] assms(3) obtain q fs' where
    f: "processStruct_fields (processAny q env) sfs fs w = Ok (fs', w')"
    and r: "r = AnyV (Some (VStruct vt fs'))"
    by (auto simp add: NumField_def fieldsOf_def)
  show ?thesis
    using r processStruct_fields_length [OF f] processStruct_fields_sensitive [OF f]
    by (auto simp add: redacted_def)
qed

lemma redact_entries_string_struct:
  assumes "redact_entries (processAny m env) entries w = Ok (rs, w')"
    and "env (Basic TString) = None" and "env vt = None" and "underlying vt = StructT sfs"
    and "\<forall>e \<in> set entries. \<exists>s fs. e = (VString (Basic TString) s, VStruct vt fs)"
  shows "\<exists>xs. List.map_filter (compatible (Basic TString) vt) rs = xs
     \<and> map fst xs = map fst entries
     \<and> (\<forall>j < length entries. \<exists>fs fs'. snd (entries ! j) = VStruct vt fs
            \<and> snd (xs ! j) = VStruct vt fs' \<and> redacted sfs fs fs')"
  using assms(1,5)
proof (induction entries arbitrary: w rs)
  case Nil
  then show ?case by (simp add: List.map_filter_simps)
next
  case (Cons e entries)
  from Cons.prems(2) obtain s fs where e: "e = (VString (Basic TString) s, VStruct vt fs)"
    by auto
  from Cons.prems(1) e obtain k' w1 v' w2 rs' where
    k: "processAny m env (Some (VString (Basic TString) s)) w = Ok (k', w1)"
    and v: "processAny m env (Some (VStruct vt fs)) w1 = Ok (v', w2)"
    and r: "redact_entries (processAny m env) entries w2 = Ok (rs', w')"
    and rs: "rs = (Any k', Any v') # rs'"
    by (auto simp add: andThen_def split: outcome.splits prod.splits)
  from processAny_string [OF k assms(2)] have k': "k' = StringV s" by simp
  from processAny_struct_redacted [OF v assms(3,4)] obtain fs' where
    v': "v' = AnyV (Some (VStruct vt fs'))" and red: "redacted sfs fs fs'" by auto
  have ks: "kindOfType vt = KStruct"
    using assms(4) kindOfType_underlying [of vt] by simp
  have c: "compatible (Basic TString) vt (Any k', Any v')
      = Some (VString (Basic TString) s, VStruct vt fs')"
    using k' v' ks by (simp add: AssignableTo_def directlyAssignable_def Set_val_def)
  from Cons.IH [OF r] Cons.prems(2) obtain xs where
    xs: "List.map_filter (compatible (Basic TString) vt) rs' = xs"
      "map fst xs = map fst entries"
      "\<forall>j < length entries. \<exists>fs fs'. snd (entries ! j) = VStruct vt fs
            \<and> snd (xs ! j) = VStruct vt fs' \<and> redacted sfs fs fs'"
    by auto
  have all: "\<forall>j < length (e # entries). \<exists>a b. snd ((e # entries) ! j) = VStruct vt a
            \<and> snd (((VString (Basic TString) s, VStruct vt fs') # xs) ! j) = VStruct vt b
            \<and> redacted sfs a b"
  proof (intro allI impI)
    fix j assume "j < length (e # entries)"
    then show "\<exists>a b. snd ((e # entries) ! j) = VStruct vt a
            \<and> snd (((VString (Basic TString) s, VStruct vt fs') # xs) ! j) = VStruct vt b
            \<and> redacted sfs a b"
      using xs(3) e red by (cases j) auto
  qed
  have mf: "List.map_filter (compatible (Basic TString) vt) rs
      = (VString (Basic TString) s, VStruct vt fs') # xs"
    using rs c xs(1) by (simp add: List.map_filter_simps)
  show ?case
  proof (intro exI conjI)
    show "List.map_filter (compatible (Basic TString) vt) rs
      = (VString (Basic TString) s, VStruct vt fs') # xs" by (fact mf)
    show "map fst ((VString (Basic TString) s, VStruct vt fs') # xs) = map fst (e # entries)"
      using xs(2) e by simp
    show "\<forall>j < length (e # entries). \<exists>a b. snd ((e # entries) ! j) = VStruct vt a
            \<and> snd (((VString (Basic TString) s, VStruct vt fs') # xs) ! j) = VStruct vt b
            \<and> redacted sfs a b" by (fact all)
  qed
qed


lemma processMap_Ok:
  assumes "processMap n env (VMap t (Some entries)) w = Ok (r, w')"
    and "underlying t = MapT kt vt"
  shows "\<exists>m newMap. n = Suc m
     \<and> processMap_entries (processAny m env) kt vt entries [] w = Ok (newMap, w')
     \<and> r = AnyV (Some (VMap t (Some newMap)))"
proof (cases n)
  case 0
  with assms show ?thesis by (simp add: processMap_def)
next
  case (Suc m)
  with assms show ?thesis
    by (auto simp add: processMap_def processMap_body_def run_CAny IsNil_def andThen_def
        split: outcome.splits prod.splits)
qed


lemma insert_compatible_length:
  assumes rs: "redact_entries (processAny m env) entries w = Ok (rs, w')"
    and nm: "newMap = insert_all (List.map_filter (compatible kt vt) rs) []"
  shows "length newMap \<le> length entries"
proof -
  have "length newMap \<le> length (List.map_filter (compatible kt vt) rs)"
    unfolding nm using insert_all_length [of "List.map_filter (compatible kt vt) rs" "[]"] by simp
  also have "\<dots> \<le> length rs" by (rule map_filter_length)
  also have "\<dots> = length entries" by (rule redact_entries_length [OF rs])
  finally show ?thesis .
qed


lemma string_keys_kept:
  assumes rs: "redact_entries (processAny m env) entries w = Ok (rs, w')"
    and nm: "newMap = insert_all (List.map_filter (compatible kt vt) rs) []"
    and h: "kt = Basic TString" "env (Basic TString) = None" "env vt = None"
      "underlying vt = StructT sfs" "distinct (map fst entries)"
      "\<forall>e \<in> set entries. \<exists>s fs. e = (VString (Basic TString) s, VStruct vt fs)"
  shows "map fst newMap = map fst entries
             \<and> (\<forall>j < length entries. \<exists>fs fs'. snd (entries ! j) = VStruct vt fs
                    \<and> snd (newMap ! j) = VStruct vt fs' \<and> redacted sfs fs fs')"
proof -
  from redact_entries_string_struct [OF rs h(2,3,4,6)] obtain xs where
    xs1: "List.map_filter (compatible (Basic TString) vt) rs = xs"
    and xs2: "map fst xs = map fst entries"
    and xs3: "\<forall>j < length entries. \<exists>fs fs'. snd (entries ! j) = VStruct vt fs
            \<and> snd (xs ! j) = VStruct vt fs' \<and> redacted sfs fs fs'" by blast
  have "distinct (map fst xs)" using h(5) xs2 by simp
  then have "insert_all xs [] = [] @ xs"
    by (rule insert_all_append) simp
  then have "newMap = xs" unfolding nm h(1) xs1 by simp
  then show ?thesis using xs2 xs3 by blast
qed


section \<open>Evaluation of the two maps\<close>

lemma Key_struct:
  "run (Suc (Suc (Suc (Suc (Suc n))))) no_methods
      (CAny (Some (VStruct Key_t [str ''acme'', str t]))) w
   = Ok (AnyV (Some (VStruct Key_t [str ''acme'', str []])), w)"
  by (simp add: walk_defs program_defs)

lemma bench_Nested_struct:
  "run (Suc (Suc (Suc (Suc (Suc n))))) no_methods
      (CAny (Some (VStruct bench_Nested [str a, str b]))) w
   = Ok (AnyV (Some (VStruct bench_Nested [str [], str b])), w)"
  by (simp add: walk_defs program_defs)

lemma str_leaf: "run (Suc (Suc n)) no_methods (CAny (Some (str a))) w = Ok (StringV a, w)"
  by (simp add: walk_defs program_defs)

lemma processMap_Suc: "processMap (Suc n) env rv w = processMap_body (run n env) rv w"
  by (simp add: processMap_def)

lemma run_CValue: "run (Suc n) env (CValue v) w = processValue_body env (run n env) v w"
  by simp

lemma kind_Key_t: "kindOfType Key_t = KStruct" "kindOfType bench_Nested = KStruct"
  by (simp_all add: Key_t_def bench_Nested_def)

lemma str_simps:
  "typeOf (str a) = Basic TString" "hashable (str a)"
  "retag (Basic TString) (str a) = str a" "Interface (str a) = Some (str a)"
  "(str a = str b) = (a = b)"
  by (simp_all add: str_def)

lemma by_name_walk:
  "processMap (Suc (Suc (Suc (Suc (Suc (Suc 0)))))) no_methods
     (VMap (MapT (Basic TString) bench_Nested) (Some
       [(str ''alice'', VStruct bench_Nested [str ''TopSecret'', str ''one'']),
        (str ''bob'', VStruct bench_Nested [str ''Hidden'', str ''two''])]))
     (fresh empty_store)
     = Ok (AnyV (Some (VMap (MapT (Basic TString) bench_Nested) (Some
             [(str ''alice'', VStruct bench_Nested [str [], str ''one'']),
              (str ''bob'', VStruct bench_Nested [str [], str ''two''])]))), fresh empty_store)"
  by (simp add: processMap_Suc processMap_body_def IsNil_def bench_Nested_struct str_leaf
      AssignableTo_def directlyAssignable_def Set_val_def kind_Key_t str_simps
      str_def [symmetric] del: run.simps)

section \<open>The store of a walk without groups\<close>

lemma AnyValue_groupless: "groupless_any x \<Longrightarrow> snd (AnyValue x st) = st"
  by (induction x st rule: AnyValue.induct) (simp_all add: groupless_any_def)

lemma returnAny_groupless:
  "groupless_any x \<Longrightarrow> returnAny x w = Ok (r, w') \<Longrightarrow> w' = w"
  using AnyValue_groupless [of x "mem w"]
  by (auto simp add: returnAny_def split: prod.splits)

lemma groupless_Interface: "groupless v \<Longrightarrow> groupless_any (Interface v)"
  by (cases v) (auto simp add: groupless_any_def split: option.splits)


lemma keeps_memD:
  "keeps_mem pa \<Longrightarrow> groupless v \<Longrightarrow> groupless_store (mem w) \<Longrightarrow> pa (Interface v) w = Ok (r, w')
   \<Longrightarrow> mem w' = mem w"
  using groupless_Interface [of v] unfolding keeps_mem_def by blast

lemma processStruct_fields_mem:
  "processStruct_fields pa sfs fs w = Ok (fs', w') \<Longrightarrow> keeps_mem pa
   \<Longrightarrow> \<forall>f \<in> set fs. groupless f \<Longrightarrow> groupless_store (mem w) \<Longrightarrow> mem w' = mem w"
proof (induction pa sfs fs w arbitrary: fs' w' rule: processStruct_fields.induct)
  case (1 pa structField sfs newField fs w)
  show ?case
  proof (cases "\<not> CanInterface structField \<or> Tag_Get (Tag structField) ''sentinel'' \<noteq> []")
    case True
    with "1.prems" obtain rest where "processStruct_fields pa sfs fs w = Ok (rest, w')"
      by (auto simp add: andThen_def split: if_splits outcome.splits prod.splits)
    with True "1.IH"(1,2) "1.prems" show ?thesis by auto
  next
    case False
    with "1.prems"(1) obtain processedValue w1 newValue rest where
      p: "pa (Interface newField) w = Ok (processedValue, w1)"
      and a: "Any processedValue = Some newValue"
      and r: "processStruct_fields pa sfs fs w1 = Ok (rest, w')"
      by (auto simp add: andThen_def split: if_splits outcome.splits prod.splits option.splits)
    from keeps_memD [OF "1.prems"(2) _ "1.prems"(4) p] "1.prems"(3)
    have m1: "mem w1 = mem w" by simp
    have "mem w' = mem w1"
      using "1.IH"(3) [OF _ _ a r "1.prems"(2)] False "1.prems"(3,4) m1 by simp
    with m1 show ?thesis by simp
  qed
qed simp_all

lemma processSlice_elems_mem:
  "processSlice_elems pa et xs w = Ok (xs', w') \<Longrightarrow> keeps_mem pa
   \<Longrightarrow> \<forall>x \<in> set xs. groupless x \<Longrightarrow> groupless_store (mem w) \<Longrightarrow> mem w' = mem w"
proof (induction xs arbitrary: xs' w w')
  case Nil
  then show ?case by simp
next
  case (Cons element es)
  from Cons.prems(1) obtain processedElement w1 newValue rest where
    p: "pa (Interface element) w = Ok (processedElement, w1)"
    and r: "processSlice_elems pa et es w1 = Ok (rest, w')"
    by (auto simp add: andThen_def split: outcome.splits prod.splits option.splits)
  from keeps_memD [OF Cons.prems(2) _ Cons.prems(4) p] Cons.prems(3)
  have m1: "mem w1 = mem w" by simp
  from Cons.IH [OF r Cons.prems(2)] Cons.prems(3,4) m1 show ?case by simp
qed

lemma processMap_entries_mem:
  "processMap_entries pa kt vt entries acc w = Ok (newMap, w') \<Longrightarrow> keeps_mem pa
   \<Longrightarrow> \<forall>e \<in> set entries. groupless (fst e) \<and> groupless (snd e)
   \<Longrightarrow> groupless_store (mem w) \<Longrightarrow> mem w' = mem w"
proof (induction entries arbitrary: acc w)
  case Nil
  then show ?case by simp
next
  case (Cons e entries)
  obtain key val where e: "e = (key, val)" by (cases e)
  from Cons.prems(1) e obtain k' w1 v' w2 where
    k: "pa (Interface key) w = Ok (k', w1)" and v: "pa (Interface val) w1 = Ok (v', w2)"
    by (auto simp add: andThen_def split: outcome.splits prod.splits)
  from keeps_memD [OF Cons.prems(2) _ Cons.prems(4) k] Cons.prems(3) e
  have m1: "mem w1 = mem w" by simp
  from keeps_memD [OF Cons.prems(2) _ _ v] Cons.prems(3,4) e m1
  have m2: "mem w2 = mem w" by simp
  from Cons.prems(1) e k v obtain acc' where
    r: "processMap_entries pa kt vt entries acc' w2 = Ok (newMap, w')"
    by (auto split: option.splits if_splits)
  from Cons.IH [OF r Cons.prems(2)] Cons.prems(3,4) m2 show ?case by simp
qed


lemma asLogValuer_none: "\<forall>t. env t = None \<Longrightarrow> asLogValuer env x = None"
  by (simp add: asLogValuer_def split: option.splits)

lemma run_mem:
  assumes env: "\<forall>t. env t = None"
  shows "groupless_call c \<Longrightarrow> groupless_store (mem w) \<Longrightarrow> run n env c w = Ok (r, w')
         \<Longrightarrow> mem w' = mem w"
proof (induction n arbitrary: c w r w')
  case 0
  then show ?case by simp
next
  case (Suc n)
  have IH: "\<And>c w r w'. groupless_call c \<Longrightarrow> groupless_store (mem w) \<Longrightarrow> run n env c w = Ok (r, w')
      \<Longrightarrow> mem w' = mem w" by (rule Suc.IH)
  have pa: "keeps_mem (\<lambda>x. run n env (CAny x))"
    unfolding keeps_mem_def using IH by (metis groupless_call.simps(2))
  note lv = asLogValuer_none [OF env]
  show ?case
  proof (cases c)
    case (CValue v)
    with Suc.prems show ?thesis by simp
  next
    case (CAny x)
    show ?thesis
    proof (cases x)
      case None
      with CAny Suc.prems show ?thesis by (simp add: processAny_body_def)
    next
      case (Some rv)
      with CAny Suc.prems have "run n env (CLoop rv) w = Ok (r, w')"
        by (simp add: processAny_body_def lv)
      moreover from Some CAny Suc.prems have "groupless_call (CLoop rv)"
        by (simp add: groupless_any_def)
      ultimately show ?thesis using IH Suc.prems(2) by blast
    qed
  next
    case (CLoop rv)
    with Suc.prems have g: "groupless rv"
      and eq: "processAny_loop env (run n env) rv w = Ok (r, w')" by simp_all
    show ?thesis
    proof (cases "Kind rv = KPointer \<or> Kind rv = KInterface")
      case True
      with eq obtain b where nil: "IsNil rv = Some b"
        by (auto simp add: processAny_loop_def split: option.splits)
      show ?thesis
      proof (cases b)
        case True
        with eq nil \<open>Kind rv = KPointer \<or> Kind rv = KInterface\<close> show ?thesis
          by (auto simp add: processAny_loop_def)
      next
        case False
        with eq nil \<open>Kind rv = KPointer \<or> Kind rv = KInterface\<close> obtain addr
          where ptr: "Pointer rv = Some addr"
          by (auto simp add: processAny_loop_def split: option.splits)
        show ?thesis
        proof (cases "visited w addr")
          case True
          with eq nil ptr False \<open>Kind rv = KPointer \<or> Kind rv = KInterface\<close>
          have "returnAny (Interface rv) w = Ok (r, w')"
            by (auto simp add: processAny_loop_def)
          from returnAny_groupless [OF groupless_Interface [OF g] this] show ?thesis by simp
        next
          case nv: False
          with eq nil ptr False \<open>Kind rv = KPointer \<or> Kind rv = KInterface\<close> obtain elem
            where c: "cells (mem w) addr = Some elem"
            and rn: "run n env (CLoop elem) (w\<lparr>visited := (visited w)(addr := True)\<rparr>) = Ok (r, w')"
            by (auto simp add: processAny_loop_def lv Let_def split: option.splits)
          from c Suc.prems(2) have "groupless_call (CLoop elem)"
            by (auto simp add: groupless_store_def)
          from IH [OF this _ rn] Suc.prems(2) show ?thesis by simp
        qed
      qed
    next
      case False
      with eq have sw: "processAny_switch (run n env) rv w = Ok (r, w')"
        by (simp add: processAny_loop_def)
      show ?thesis
      proof (cases "Kind rv")
        case (KBasic b)
        with sw have "returnAny (Interface rv) w = Ok (r, w')"
          by (simp add: processAny_switch_def)
        from returnAny_groupless [OF groupless_Interface [OF g] this] show ?thesis by simp
      next
        case KPointer
        with False show ?thesis by simp
      next
        case KSlice
        with sw have "run n env (CSlice rv) w = Ok (r, w')" by (simp add: processAny_switch_def)
        from IH [OF _ Suc.prems(2) this] g show ?thesis by simp
      next
        case KArray
        with sw have "run n env (CSlice rv) w = Ok (r, w')" by (simp add: processAny_switch_def)
        from IH [OF _ Suc.prems(2) this] g show ?thesis by simp
      next
        case KMap
        with sw have "run n env (CMap rv) w = Ok (r, w')" by (simp add: processAny_switch_def)
        from IH [OF _ Suc.prems(2) this] g show ?thesis by simp
      next
        case KStruct
        with sw have "run n env (CStruct rv) w = Ok (r, w')" by (simp add: processAny_switch_def)
        from IH [OF _ Suc.prems(2) this] g show ?thesis by simp
      next
        case KInterface
        with False show ?thesis by simp
      qed
    qed
  next
    case (CStruct rv)
    with Suc.prems have g: "groupless rv"
      and eq: "processStruct_body (run n env) rv w = Ok (r, w')" by simp_all
    from eq obtain sfs newStruct w1 where
      f: "processStruct_fields (\<lambda>x. run n env (CAny x)) sfs (fieldsOf rv) w = Ok (newStruct, w1)"
      and ra: "returnAny (Some (VStruct (typeOf rv) newStruct)) w1 = Ok (r, w')"
      by (auto simp add: processStruct_body_def andThen_def
          split: option.splits outcome.splits prod.splits)
    from g have "\<forall>f \<in> set (fieldsOf rv). groupless f"
      by (cases rv) (simp_all add: fieldsOf_def)
    from processStruct_fields_mem [OF f pa this Suc.prems(2)] ra show ?thesis by simp
  next
    case (CSlice rv)
    with Suc.prems have g: "groupless rv"
      and eq: "processSliceOrArray_body (run n env) rv w = Ok (r, w')" by simp_all
    show ?thesis
    proof (cases "IsNil rv = Some True")
      case True
      with eq show ?thesis by (simp add: processSliceOrArray_body_def)
    next
      case False
      with eq g obtain t xs et newSlice w1 where
        rv: "rv = VSlice t (Some xs)"
        and f: "processSlice_elems (\<lambda>x. run n env (CAny x)) et xs w = Ok (newSlice, w1)"
        and ra: "returnAny (Some (VSlice t (Some newSlice))) w1 = Ok (r, w')"
        by (auto simp add: processSliceOrArray_body_def andThen_def
            split: option.splits outcome.splits prod.splits bool.splits goval.splits)
      from g rv have "\<forall>x \<in> set xs. groupless x" by simp
      from processSlice_elems_mem [OF f pa this Suc.prems(2)] ra show ?thesis by simp
    qed
  next
    case (CMap rv)
    with Suc.prems have g: "groupless rv"
      and eq: "processMap_body (run n env) rv w = Ok (r, w')" by simp_all
    show ?thesis
    proof (cases "IsNil rv = Some True")
      case True
      with eq show ?thesis by (simp add: processMap_body_def)
    next
      case False
      with eq obtain t entries kt vt newMap w1 where
        rv: "rv = VMap t (Some entries)"
        and f: "processMap_entries (\<lambda>x. run n env (CAny x)) kt vt entries [] w = Ok (newMap, w1)"
        and ra: "returnAny (Some (VMap t (Some newMap))) w1 = Ok (r, w')"
        by (auto simp add: processMap_body_def andThen_def
            split: option.splits outcome.splits prod.splits bool.splits goval.splits gotype.splits)
      from g rv have "\<forall>e \<in> set entries. groupless (fst e) \<and> groupless (snd e)" by simp
      from processMap_entries_mem [OF f pa this Suc.prems(2)] ra show ?thesis by simp
    qed
  next
    case (CPointer rv)
    with Suc.prems show ?thesis by simp
  qed
qed

section \<open>Evaluation of the pointer stored twice\<close>

lemma ptr_first:
  "run (Suc (Suc (Suc (Suc (Suc (Suc n)))))) no_methods (CAny (Some ptr)) (fresh main_store)
   = Ok (AnyV (Some (VStruct Nested [str [], str ''PublicData''])), seen)"
  by (simp add: walk_defs program_defs ptr_def seen_def)

lemma ptr_again:
  "run (Suc (Suc n)) no_methods (CAny (Some ptr)) seen = Ok (AnyV (Some ptr), seen)"
  by (simp add: walk_defs program_defs ptr_def seen_def)

lemma ReplaceAttr_map:
  "ReplaceAttr (Suc (Suc (Suc n))) no_methods groups \<lparr>Key = k, Value = AnyV (Some (VMap (MapT kt vt) m))\<rparr> st
   = andThen (processMap n no_methods (VMap (MapT kt vt) m) (fresh st))
       (\<lambda>(v, w). Ok (\<lparr>Key = k, Value = v\<rparr>, mem w))"
  by (simp add: ReplaceAttr_def processValue_def processValue_body_def processAny_body_def
      processAny_loop_def processAny_switch_def Kind_of_def asLogValuer_def no_methods_def
      Kind_def processMap_def fresh_def)

lemma twice_ab_walk: "processMap (Suc (Suc (Suc (Suc (Suc (Suc (Suc 0))))))) no_methods
     (VMap (MapT (Basic TString) AnyT) (Some twice_ab)) (fresh main_store)
   = Ok (AnyV (Some (VMap (MapT (Basic TString) AnyT) (Some
       [(str ''a'', VIface AnyT (Some (VStruct Nested [str [], str ''PublicData'']))),
        (str ''b'', VIface AnyT (Some ptr))]))), seen)"
  by (simp add: processMap_Suc processMap_body_def IsNil_def twice_ab_def ptr_first ptr_again
      str_leaf AssignableTo_def directlyAssignable_def implements_def Set_val_def str_simps
      str_def [symmetric] del: run.simps)

lemma twice_ba_walk:
  "processMap (Suc (Suc (Suc (Suc (Suc (Suc (Suc 0))))))) no_methods
     (VMap (MapT (Basic TString) AnyT) (Some twice_ba)) (fresh main_store)
   = Ok (AnyV (Some (VMap (MapT (Basic TString) AnyT) (Some
       [(str ''b'', VIface AnyT (Some (VStruct Nested [str [], str ''PublicData'']))),
        (str ''a'', VIface AnyT (Some ptr))]))), seen)"
  by (simp add: processMap_Suc processMap_body_def IsNil_def twice_ba_def ptr_first ptr_again
      str_leaf AssignableTo_def directlyAssignable_def implements_def Set_val_def str_simps
      str_def [symmetric] del: run.simps)

section \<open>The second walk over a value without references\<close>

text \<open>
  When no type has a \<^verbatim>\<open>LogValue\<close> method, \<^verbatim>\<open>processAny\<close> is settled at every depth: by
  induction on the depth, with one lemma for each loop. What a loop has stored is
  returned by the loop again, in whatever order the maps inside yield their entries.
\<close>

lemma typeOf_reorder [simp]: "typeOf (reorder p v) = typeOf v"
  by (induction p v rule: reorder.induct) simp_all

lemma valid_id: "valid (\<lambda>es. es)"
  by (simp add: valid_def)

lemma reorder_id [simp]: "reorder (\<lambda>es. es) v = v"
  by (induction "\<lambda>es :: (goval \<times> goval) list. es" v rule: reorder.induct)
    (simp_all add: map_idI)

lemma valid_all: "valid p \<Longrightarrow> list_all P (p es) = list_all P es"
  by (simp add: valid_def list_all_iff)

lemma valid_set: "valid p \<Longrightarrow> set (p es) = set es"
  by (simp add: valid_def)

lemma valid_distinct: "valid p \<Longrightarrow> distinct (map fst es) \<Longrightarrow> distinct (map fst (p es))"
  by (simp add: valid_def)

lemma plain_Interface: "plain v \<Longrightarrow> Interface v = Some v"
  by (cases v) simp_all

lemma basicKind_not_iface: "basicKind t \<Longrightarrow> kindOfType t \<noteq> KInterface"
  by (simp add: basicKind_def split: rkind.splits)

lemma kind_of_underlying:
  "underlying t = StructT sfs \<Longrightarrow> kindOfType t = KStruct"
  "underlying t = SliceT et \<Longrightarrow> kindOfType t = KSlice"
  "underlying t = MapT kt vt \<Longrightarrow> kindOfType t = KMap"
  using kindOfType_underlying [of t] by simp_all

lemma plain_struct: "plain (VStruct t fs) \<Longrightarrow> \<exists>sfs. underlying t = StructT sfs"
  by (cases "underlying t") simp_all

lemma plain_slice: "plain (VSlice t xs) \<Longrightarrow> \<exists>et. underlying t = SliceT et"
  by (cases "underlying t") simp_all

lemma plain_map: "plain (VMap t m) \<Longrightarrow> \<exists>kt vt. underlying t = MapT kt vt"
  by (cases "underlying t") simp_all

lemma plain_not_iface: "plain v \<Longrightarrow> kindOfType (typeOf v) \<noteq> KInterface"
proof (cases v)
  case (VBool t b)
  assume "plain v"
  with VBool show ?thesis by (simp add: basicKind_not_iface)
next
  case (VString t b)
  assume "plain v"
  with VString show ?thesis by (simp add: basicKind_not_iface)
next
  case (VInt t b)
  assume "plain v"
  with VInt show ?thesis by (simp add: basicKind_not_iface)
next
  case (VStruct t fs)
  assume "plain v"
  with VStruct plain_struct [of t fs] show ?thesis by (auto simp add: kind_of_underlying)
next
  case (VSlice t xs)
  assume "plain v"
  with VSlice plain_slice [of t xs] show ?thesis by (auto simp add: kind_of_underlying)
next
  case (VMap t m)
  assume "plain v"
  with VMap plain_map [of t m] show ?thesis by (auto simp add: kind_of_underlying)
qed simp_all

lemma plain_retag: "plain v \<Longrightarrow> retag (typeOf v) v = v"
  by (cases v) simp_all

lemma basicKind_HasName: "basicKind t \<Longrightarrow> HasName t"
  by (cases t) (simp_all add: basicKind_def)

lemma related_assignable:
  assumes "plain v" and "related v v'"
  shows "AssignableTo (typeOf v') (typeOf v) = (typeOf v' = typeOf v)"
proof (cases "typeOf v' = typeOf v")
  case True
  then show ?thesis by (simp add: AssignableTo_def directlyAssignable_def)
next
  case False
  with assms(2) have "HasName (typeOf v) \<and> HasName (typeOf v')"
    by (simp add: related_def)
  with False plain_not_iface [OF assms(1)] show ?thesis
    by (simp add: AssignableTo_def directlyAssignable_def implements_def)
qed

lemma related_Set_val:
  "plain v \<Longrightarrow> plain v' \<Longrightarrow> typeOf v' = typeOf v \<Longrightarrow> Set_val (typeOf v) v' = v'"
  using plain_not_iface [of v] plain_retag [of v'] by (simp add: Set_val_def)

lemma plain_reorder: "valid p \<Longrightarrow> plain v \<Longrightarrow> plain (reorder p v)"
proof (induction p v rule: reorder.induct)
  case (1 p t fs)
  from plain_struct [OF "1.prems"(2)] obtain sfs where u: "underlying t = StructT sfs" ..
  with "1.prems"(2) have a: "list_all2 (\<lambda>sf f. walked sf \<longrightarrow> plain f \<and> typeOf f = Type sf) sfs fs"
    by simp
  have "list_all2 (\<lambda>sf f. walked sf \<longrightarrow> plain (reorder p f) \<and> typeOf (reorder p f) = Type sf) sfs fs"
    using a "1.IH" [OF _ "1.prems"(1)] by (auto elim!: list.rel_mono_strong)
  with u show ?case by (simp add: list_all2_map2)
next
  case (2 p t xs)
  from plain_slice [OF "2.prems"(2)] obtain et where u: "underlying t = SliceT et" ..
  with "2.prems"(2) "2.IH" [OF _ "2.prems"(1)] show ?case
    by (simp add: list_all_iff)
next
  case (3 p t es)
  from plain_map [OF "3.prems"(2)] obtain kt vt where u: "underlying t = MapT kt vt" by blast
  with "3.prems"(2) "3.IH" [OF _ "3.prems"(1)] show ?case
    by (auto simp add: valid_set [OF "3.prems"(1)] list_all_iff)
qed simp_all

lemma reorder_scalar: "plain v \<Longrightarrow> basicKind (typeOf v) \<Longrightarrow> reorder p v = v"
proof (cases v)
  case (VStruct t fs)
  assume "plain v" and "basicKind (typeOf v)"
  with VStruct plain_struct [of t fs] show ?thesis
    by (auto simp add: basicKind_def kind_of_underlying)
next
  case (VSlice t xs)
  assume "plain v" and "basicKind (typeOf v)"
  with VSlice plain_slice [of t xs] show ?thesis
    by (auto simp add: basicKind_def kind_of_underlying)
next
  case (VMap t m)
  assume "plain v" and "basicKind (typeOf v)"
  with VMap plain_map [of t m] show ?thesis
    by (auto simp add: basicKind_def kind_of_underlying)
qed simp_all

lemma reorder_retag: "reorder p (retag t v) = retag t (reorder p v)"
  by (induction p v rule: reorder.induct) simp_all

lemma reorder_Zero:
  "reorder p (Zero T) = Zero T" "map (reorder p) (ZeroFields sfs) = ZeroFields sfs"
  by (induction T and sfs rule: Zero_ZeroFields.induct) (simp_all add: reorder_retag)

lemma fields_plain_simps [simp]:
  "fields_plain [] [] = True"
  "fields_plain (sf # sfs) (f # fs)
     = ((walked sf \<longrightarrow> plain f \<and> typeOf f = Type sf) \<and> fields_plain sfs fs)"
  "fields_plain [] (f # fs) = False" "fields_plain (sf # sfs) [] = False"
  by (simp_all add: fields_plain_def)

lemma fields_skipped:
  "\<not> walked sf \<Longrightarrow> processStruct_fields pa (sf # sfs) (f # fs) w
     = andThen (processStruct_fields pa sfs fs w)
         (\<lambda>(rest, w1). Ok ((if CanInterface sf then Zero (Type sf) else f) # rest, w1))"
  by (auto simp add: walked_def)

lemma fields_walked:
  "walked sf \<Longrightarrow> processStruct_fields pa (sf # sfs) (f # fs) w
     = andThen (pa (Interface f) w) (\<lambda>(processedValue, w1).
          case Any processedValue of
            None \<Rightarrow> Panic
          | Some newValue \<Rightarrow>
              andThen (processStruct_fields pa sfs fs w1) (\<lambda>(rest, w2).
                Ok ((if AssignableTo (typeOf newValue) (Type sf)
                     then Set_val (Type sf) newValue else f) # rest, w2)))"
  by (simp add: walked_def)

lemma settledD:
  assumes "settled pa" and "plain v" and "pa (Some v) w = Ok (r, w')"
  shows "w' = w" and "\<And>w2. pa (Some v) w2 = Ok (r, w2)"
    and "\<And>v'. Any r = Some v' \<Longrightarrow> plain v' \<and> related v v' \<and> (\<forall>w2. pa (Some v') w2 = Ok (r, w2))
            \<and> stable pa (typeOf v') v'"
proof -
  from assms have s: "settles pa v w r w'" unfolding settled_def by blast
  then show w: "w' = w" by (simp add: settles_def)
  from s show i: "\<And>w2. pa (Some v) w2 = Ok (r, w2)" by (simp add: settles_def)
  fix v' assume a: "Any r = Some v'"
  with s have p: "plain v'" and rel: "related v v'" and again: "pa (Some v') w = Ok (r, w)"
    and st: "stable pa (typeOf v') v'"
    by (simp_all add: settles_def)
  from assms(1) p again have "settles pa v' w r w" unfolding settled_def by blast
  then have "\<forall>w2. pa (Some v') w2 = Ok (r, w2)" by (simp add: settles_def)
  with p rel st show "plain v' \<and> related v v' \<and> (\<forall>w2. pa (Some v') w2 = Ok (r, w2))
            \<and> stable pa (typeOf v') v'" by simp
qed

lemma fixed_slot:
  "fixed pa T x \<Longrightarrow> \<exists>pv nv. (\<forall>w. pa (Interface x) w = Ok (pv, w)) \<and> Any pv = Some nv \<and> slot T nv x = x"
  using related_Set_val [of x x]
  by (auto simp add: fixed_def slot_def)

lemma slot_settled:
  assumes pa: "settled pa" and f: "plain f" and T: "typeOf f = T"
    and p: "pa (Interface f) w = Ok (pv, w1)" and a: "Any pv = Some nv"
  shows "w1 = w" and "\<And>w2. pa (Interface f) w2 = Ok (pv, w2)"
    and "plain (slot T nv f)" and "typeOf (slot T nv f) = T"
    and "\<And>p. valid p \<Longrightarrow> \<exists>pv2 nv2. (\<forall>w2. pa (Interface (reorder p (slot T nv f))) w2 = Ok (pv2, w2))
           \<and> Any pv2 = Some nv2
           \<and> slot T nv2 (reorder p (slot T nv f)) = reorder p (slot T nv f)"
proof -
  from p have p': "pa (Some f) w = Ok (pv, w1)" by (simp add: plain_Interface [OF f])
  from settledD(1) [OF pa f p'] show "w1 = w" .
  from settledD(2) [OF pa f p'] have ind: "\<And>w2. pa (Some f) w2 = Ok (pv, w2)" .
  then show "\<And>w2. pa (Interface f) w2 = Ok (pv, w2)" by (simp add: plain_Interface [OF f])
  from settledD(3) [OF pa f p' a] have nv: "plain nv" and rel: "related f nv"
    and again: "\<And>w2. pa (Some nv) w2 = Ok (pv, w2)"
    and st: "stable pa (typeOf nv) nv" by simp_all
  from related_assignable [OF f rel] T
  have as: "AssignableTo (typeOf nv) T = (typeOf nv = T)" by simp
  show "plain (slot T nv f)"
    using as f nv T related_Set_val [OF f nv] by (auto simp add: slot_def)
  show "typeOf (slot T nv f) = T"
    using as f nv T related_Set_val [OF f nv] by (auto simp add: slot_def)
  fix p :: "(goval \<times> goval) list \<Rightarrow> (goval \<times> goval) list"
  assume v: "valid p"
  show "\<exists>pv2 nv2. (\<forall>w2. pa (Interface (reorder p (slot T nv f))) w2 = Ok (pv2, w2))
           \<and> Any pv2 = Some nv2
           \<and> slot T nv2 (reorder p (slot T nv f)) = reorder p (slot T nv f)"
  proof (cases "typeOf nv = T")
    case True
    with as T related_Set_val [OF f nv] have s: "slot T nv f = nv" by (simp add: slot_def)
    from st v True have "fixed pa T (reorder p nv)" by (simp add: stable_def)
    from fixed_slot [OF this] s show ?thesis by simp
  next
    case False
    with as have s: "slot T nv f = f" by (simp add: slot_def)
    from False rel T have "basicKind (typeOf f)" by (auto simp add: related_def)
    from reorder_scalar [OF f this] have "reorder p f = f" .
    with s ind a show ?thesis by (auto simp add: plain_Interface [OF f])
  qed
qed

lemma struct_loop_settled:
  assumes pa: "settled pa"
  shows "fields_plain sfs fs \<Longrightarrow> processStruct_fields pa sfs fs w = Ok (fs', w')
    \<Longrightarrow> w' = w \<and> (\<forall>w2. processStruct_fields pa sfs fs w2 = Ok (fs', w2))
        \<and> fields_plain sfs fs'
        \<and> (\<forall>p. valid p \<longrightarrow>
              (\<forall>w2. processStruct_fields pa sfs (map (reorder p) fs') w2 = Ok (map (reorder p) fs', w2)))"
proof (induction sfs arbitrary: fs fs' w w')
  case Nil
  then show ?case by (cases fs) simp_all
next
  case (Cons sf sfs)
  from Cons.prems(1) obtain f fs0 where fs: "fs = f # fs0" by (cases fs) simp_all
  with Cons.prems(1) have pl: "fields_plain sfs fs0" by simp
  show ?case
  proof (cases "walked sf")
    case False
    with Cons.prems(2) fs obtain rest where
      r: "processStruct_fields pa sfs fs0 w = Ok (rest, w')"
      and fs': "fs' = (if CanInterface sf then Zero (Type sf) else f) # rest"
      by (auto simp add: fields_skipped andThen_def simp del: processStruct_fields.simps
          split: outcome.splits prod.splits)
    from Cons.IH [OF pl r] have w: "w' = w"
      and i: "\<And>w2. processStruct_fields pa sfs fs0 w2 = Ok (rest, w2)"
      and p: "fields_plain sfs rest"
      and a: "\<And>p w2. valid p \<Longrightarrow>
               processStruct_fields pa sfs (map (reorder p) rest) w2 = Ok (map (reorder p) rest, w2)"
      by simp_all
    from False w i p a fs fs' show ?thesis
      by (simp add: fields_skipped reorder_Zero del: processStruct_fields.simps)
  next
    case True
    with Cons.prems(1) fs have f: "plain f" and T: "typeOf f = Type sf" by simp_all
    from Cons.prems(2) fs True obtain pv w1 nv rest where
      p: "pa (Interface f) w = Ok (pv, w1)" and an: "Any pv = Some nv"
      and r: "processStruct_fields pa sfs fs0 w1 = Ok (rest, w')"
      and fs': "fs' = slot (Type sf) nv f # rest"
      by (auto simp add: fields_walked andThen_def slot_def
          simp del: processStruct_fields.simps
          split: outcome.splits prod.splits option.splits)
    note s = slot_settled [OF pa f T p an]
    from Cons.IH [OF pl r] s(1) have w: "w' = w"
      and i: "\<And>w2. processStruct_fields pa sfs fs0 w2 = Ok (rest, w2)"
      and pr: "fields_plain sfs rest"
      and a: "\<And>p w2. valid p \<Longrightarrow>
               processStruct_fields pa sfs (map (reorder p) rest) w2 = Ok (map (reorder p) rest, w2)"
      by simp_all
    have one: "\<forall>w2. processStruct_fields pa (sf # sfs) fs w2 = Ok (fs', w2)"
      using True fs fs' s(2) an i
      by (simp add: fields_walked slot_def del: processStruct_fields.simps)
    have two: "\<forall>p. valid p \<longrightarrow>
        (\<forall>w2. processStruct_fields pa (sf # sfs) (map (reorder p) fs') w2 = Ok (map (reorder p) fs', w2))"
    proof (intro allI impI)
      fix p :: "(goval \<times> goval) list \<Rightarrow> (goval \<times> goval) list" and w2
      assume v: "valid p"
      from s(5) [OF v] obtain pv2 nv2 where
        p2: "\<And>w2. pa (Interface (reorder p (slot (Type sf) nv f))) w2 = Ok (pv2, w2)"
        and an2: "Any pv2 = Some nv2"
        and fx: "slot (Type sf) nv2 (reorder p (slot (Type sf) nv f)) = reorder p (slot (Type sf) nv f)"
        by blast
      from True fs' p2 an2 a [OF v] fx
      show "processStruct_fields pa (sf # sfs) (map (reorder p) fs') w2 = Ok (map (reorder p) fs', w2)"
        by (simp add: fields_walked slot_def del: processStruct_fields.simps)
    qed
    from w one two pr s(3,4) fs' show ?thesis by simp
  qed
qed

lemma slice_step:
  "processSlice_elems pa et (element # es) w
     = andThen (pa (Interface element) w) (\<lambda>(processedElement, w1).
         case Any processedElement of
           None \<Rightarrow> Panic
         | Some newValue \<Rightarrow>
             andThen (processSlice_elems pa et es w1) (\<lambda>(rest, w2).
               Ok (slot et newValue element # rest, w2)))"
  unfolding slot_def by simp

lemma slice_loop_settled:
  assumes pa: "settled pa"
  shows "list_all (\<lambda>x. plain x \<and> typeOf x = et) xs \<Longrightarrow> processSlice_elems pa et xs w = Ok (xs', w')
    \<Longrightarrow> w' = w \<and> (\<forall>w2. processSlice_elems pa et xs w2 = Ok (xs', w2))
        \<and> list_all (\<lambda>x. plain x \<and> typeOf x = et) xs'
        \<and> (\<forall>p. valid p \<longrightarrow>
              (\<forall>w2. processSlice_elems pa et (map (reorder p) xs') w2 = Ok (map (reorder p) xs', w2)))"
proof (induction xs arbitrary: xs' w w')
  case Nil
  then show ?case by simp
next
  case (Cons f xs)
  from Cons.prems(1) have f: "plain f" and T: "typeOf f = et"
    and pl: "list_all (\<lambda>x. plain x \<and> typeOf x = et) xs" by simp_all
  from Cons.prems(2) obtain pv w1 nv rest where
    p: "pa (Interface f) w = Ok (pv, w1)" and an: "Any pv = Some nv"
    and r: "processSlice_elems pa et xs w1 = Ok (rest, w')"
    and xs': "xs' = slot et nv f # rest"
    by (auto simp add: slice_step andThen_def simp del: processSlice_elems.simps
        split: outcome.splits prod.splits option.splits)
  note s = slot_settled [OF pa f T p an]
  from Cons.IH [OF pl r] s(1) have w: "w' = w"
    and i: "\<And>w2. processSlice_elems pa et xs w2 = Ok (rest, w2)"
    and pr: "list_all (\<lambda>x. plain x \<and> typeOf x = et) rest"
    and a: "\<And>p w2. valid p \<Longrightarrow>
             processSlice_elems pa et (map (reorder p) rest) w2 = Ok (map (reorder p) rest, w2)"
    by simp_all
  have one: "\<forall>w2. processSlice_elems pa et (f # xs) w2 = Ok (xs', w2)"
    using xs' s(2) an i by (simp add: slice_step del: processSlice_elems.simps)
  have two: "\<forall>p. valid p \<longrightarrow>
      (\<forall>w2. processSlice_elems pa et (map (reorder p) xs') w2 = Ok (map (reorder p) xs', w2))"
  proof (intro allI impI)
    fix p :: "(goval \<times> goval) list \<Rightarrow> (goval \<times> goval) list" and w2
    assume v: "valid p"
    from s(5) [OF v] obtain pv2 nv2 where
      p2: "\<And>w2. pa (Interface (reorder p (slot et nv f))) w2 = Ok (pv2, w2)"
      and an2: "Any pv2 = Some nv2"
      and fx: "slot et nv2 (reorder p (slot et nv f)) = reorder p (slot et nv f)"
      by blast
    from xs' p2 an2 a [OF v] fx
    show "processSlice_elems pa et (map (reorder p) xs') w2 = Ok (map (reorder p) xs', w2)"
      by (simp add: slice_step del: processSlice_elems.simps)
  qed
  from w one two pr s(3,4) xs' show ?case by simp
qed

lemma basicKind_Basic [simp]: "basicKind (Basic b)"
  by (simp add: basicKind_def)

lemma scalar_kept:
  "basicKind t \<Longrightarrow> typeOf v = t \<Longrightarrow> plain v
   \<Longrightarrow> (\<forall>w. returnAny (Some v) w = Ok (AnyV (Some v), w)) \<Longrightarrow> scalar_ok v (AnyV (Some v))"
  by (simp add: scalar_ok_def related_def)

lemma scalar_bool: "basicKind t \<Longrightarrow> \<exists>r. scalar_ok (VBool t b) r"
proof (cases "t = Basic TBool")
  case True
  then have "scalar_ok (VBool t b) (BoolV b)"
    by (simp add: scalar_ok_def returnAny_def related_def)
  then show ?thesis ..
next
  case False
  assume k: "basicKind t"
  from False have "\<And>st. AnyValue (Some (VBool t b)) st = (AnyV (Some (VBool t b)), st)"
    by (cases t rule: gotype.exhaust; cases "case t of Basic x \<Rightarrow> x | _ \<Rightarrow> TInt") simp_all
  then have "scalar_ok (VBool t b) (AnyV (Some (VBool t b)))"
    using k by (intro scalar_kept [of t]) (simp_all add: returnAny_def)
  then show ?thesis ..
qed

lemma scalar_string: "basicKind t \<Longrightarrow> \<exists>r. scalar_ok (VString t b) r"
proof (cases "t = Basic TString")
  case True
  then have "scalar_ok (VString t b) (StringV b)"
    by (simp add: scalar_ok_def returnAny_def related_def)
  then show ?thesis ..
next
  case False
  assume k: "basicKind t"
  from False have "\<And>st. AnyValue (Some (VString t b)) st = (AnyV (Some (VString t b)), st)"
    by (cases t rule: gotype.exhaust; cases "case t of Basic x \<Rightarrow> x | _ \<Rightarrow> TInt") simp_all
  then have "scalar_ok (VString t b) (AnyV (Some (VString t b)))"
    using k by (intro scalar_kept [of t]) (simp_all add: returnAny_def)
  then show ?thesis ..
qed

lemma scalar_int: "basicKind t \<Longrightarrow> \<exists>r. scalar_ok (VInt t i) r"
proof (cases "\<exists>b. t = Basic b")
  case True
  then obtain b where t: "t = Basic b" ..
  show ?thesis
  proof (cases "signed b")
    case True
    with t have "scalar_ok (VInt t i) (Int64V i)"
      by (simp add: scalar_ok_def returnAny_def related_def signed_def)
    then show ?thesis ..
  next
    case False
    with t have "scalar_ok (VInt t i) (Uint64V i)"
      by (simp add: scalar_ok_def returnAny_def related_def signed_def)
    then show ?thesis ..
  qed
next
  case False
  assume k: "basicKind t"
  from False have "\<And>st. AnyValue (Some (VInt t i)) st = (AnyV (Some (VInt t i)), st)"
    by (cases t rule: gotype.exhaust) simp_all
  then have "scalar_ok (VInt t i) (AnyV (Some (VInt t i)))"
    using k by (intro scalar_kept [of t]) (simp_all add: returnAny_def)
  then show ?thesis ..
qed

lemma scalar_settled:
  assumes "plain v" and "basicKind (typeOf v)"
  shows "\<exists>r. scalar_ok v r"
proof (cases v)
  case (VBool t b)
  with assms scalar_bool [of t b] show ?thesis by simp
next
  case (VString t b)
  with assms scalar_string [of t b] show ?thesis by simp
next
  case (VInt t b)
  with assms scalar_int [of t b] show ?thesis by simp
next
  case (VStruct t fs)
  with assms plain_struct [of t fs] show ?thesis
    by (auto simp add: basicKind_def kind_of_underlying)
next
  case (VSlice t xs)
  with assms plain_slice [of t xs] show ?thesis
    by (auto simp add: basicKind_def kind_of_underlying)
next
  case (VMap t m)
  with assms plain_map [of t m] show ?thesis
    by (auto simp add: basicKind_def kind_of_underlying)
next
  case (VPtr t p)
  with assms show ?thesis by simp
next
  case (VArray t xs)
  with assms show ?thesis by simp
next
  case (VIface t x)
  with assms show ?thesis by simp
next
  case (VAttrs a)
  with assms show ?thesis by simp
qed

lemma fixed_Set_val: "fixed pa T v \<Longrightarrow> Set_val T v = v \<and> AssignableTo (typeOf v) T"
  using related_Set_val [of v v]
  by (auto simp add: fixed_def AssignableTo_def directlyAssignable_def)

lemma stable_fixed: "stable pa T v \<Longrightarrow> fixed pa T v"
  using valid_id by (auto simp add: stable_def dest!: spec [of _ "\<lambda>es. es"])

lemma kept_entry_fixed: "kept_entry pa kt vt e \<Longrightarrow> fixed_entry pa kt vt e"
  by (simp add: kept_entry_def fixed_entry_def stable_fixed)

lemma assigned_fixed:
  assumes pa: "settled pa" and f: "plain f" and T: "typeOf f = T"
    and p: "pa (Interface f) w = Ok (pv, w1)" and a: "Any pv = Some nv"
    and as: "AssignableTo (typeOf nv) T"
  shows "Set_val T nv = nv" and "fixed pa T nv" and "stable pa T nv"
proof -
  from p have p': "pa (Some f) w = Ok (pv, w1)" by (simp add: plain_Interface [OF f])
  from settledD(3) [OF pa f p' a] have nv: "plain nv" and rel: "related f nv"
    and again: "\<And>w2. pa (Some nv) w2 = Ok (pv, w2)"
    and st: "stable pa (typeOf nv) nv" by simp_all
  from related_assignable [OF f rel] T as have ty: "typeOf nv = T" by simp
  with related_Set_val [OF f nv] T show "Set_val T nv = nv" by simp
  from nv ty again a show "fixed pa T nv"
    by (auto simp add: fixed_def plain_Interface [OF nv])
  from st ty show "stable pa T nv" by simp
qed

lemma update_list_all:
  "P (k, v) \<Longrightarrow> list_all P al \<Longrightarrow> list_all P (AList.update k v al)"
  by (induction al) auto

lemma map_step:
  "processMap_entries pa kt vt ((key, val) # rest) newMap w =
     andThen (pa (Interface key) w) (\<lambda>(processedKeyVal, w1).
     andThen (pa (Interface val) w1) (\<lambda>(processedValueVal, w2).
       case Any processedKeyVal of
         None \<Rightarrow> Panic
       | Some processedKey \<Rightarrow>
           if \<not> AssignableTo (typeOf processedKey) kt
           then processMap_entries pa kt vt rest newMap w2
           else
             (case Any processedValueVal of
                None \<Rightarrow> Panic
              | Some processedValue \<Rightarrow>
                  if \<not> AssignableTo (typeOf processedValue) vt
                  then processMap_entries pa kt vt rest newMap w2
                  else if \<not> hashable (Set_val kt processedKey) then Panic
                  else processMap_entries pa kt vt rest
                         (AList.update (Set_val kt processedKey) (Set_val vt processedValue) newMap)
                         w2)))"
  by simp

lemma map_loop_fixed:
  "list_all (fixed_entry pa kt vt) m
   \<Longrightarrow> processMap_entries pa kt vt m acc w = Ok (insert_all m acc, w)"
proof (induction m arbitrary: acc)
  case Nil
  then show ?case by simp
next
  case (Cons e m)
  obtain k v where e: "e = (k, v)" by (cases e)
  from Cons.prems e have hd: "fixed_entry pa kt vt (k, v)"
    and rest: "list_all (fixed_entry pa kt vt) m" by simp_all
  from hd have fk: "fixed pa kt k" and fv: "fixed pa vt v" and h: "hashable k"
    by (simp_all add: fixed_entry_def)
  from fk obtain pk where pk: "\<And>w. pa (Interface k) w = Ok (pk, w)" and ak: "Any pk = Some k"
    by (auto simp add: fixed_def)
  from fv obtain pv where pv: "\<And>w. pa (Interface v) w = Ok (pv, w)" and av: "Any pv = Some v"
    by (auto simp add: fixed_def)
  from fixed_Set_val [OF fk] fixed_Set_val [OF fv] pk pv ak av h Cons.IH [OF rest]
  show ?case unfolding e by (subst map_step) (simp del: processMap_entries.simps)
qed

lemma map_loop_settled:
  assumes pa: "settled pa"
  shows "list_all (plain_entry kt vt) entries \<Longrightarrow> list_all (kept_entry pa kt vt) acc
    \<Longrightarrow> processMap_entries pa kt vt entries acc w = Ok (newMap, w')
    \<Longrightarrow> w' = w \<and> (\<forall>w2. processMap_entries pa kt vt entries acc w2 = Ok (newMap, w2))
        \<and> list_all (kept_entry pa kt vt) newMap
        \<and> (distinct (map fst acc) \<longrightarrow> distinct (map fst newMap))"
proof (induction entries arbitrary: acc w)
  case Nil
  then show ?case by simp
next
  case (Cons e entries)
  obtain k v where e: "e = (k, v)" by (cases e)
  from Cons.prems(1) e have hd: "plain_entry kt vt (k, v)"
    and pl: "list_all (plain_entry kt vt) entries" by simp_all
  from hd have k: "plain k" and tk: "typeOf k = kt" and v: "plain v" and tv: "typeOf v = vt"
    by (simp_all add: plain_entry_def)
  from Cons.prems(3) have run: "processMap_entries pa kt vt ((k, v) # entries) acc w = Ok (newMap, w')"
    unfolding e .
  from run obtain pk w1 pv w2 nk where
    p1: "pa (Interface k) w = Ok (pk, w1)" and p2: "pa (Interface v) w1 = Ok (pv, w2)"
    and ak: "Any pk = Some nk"
    by (subst (asm) map_step)
      (auto simp add: andThen_def simp del: processMap_entries.simps
        split: outcome.splits prod.splits option.splits)
  note sk = slot_settled(1,2) [OF pa k tk p1 ak]
  have "\<exists>acc'. list_all (kept_entry pa kt vt) acc'
      \<and> (distinct (map fst acc) \<longrightarrow> distinct (map fst acc'))
      \<and> (\<forall>w3. processMap_entries pa kt vt ((k, v) # entries) acc w3
                = processMap_entries pa kt vt entries acc' w3)"
  proof (cases "AssignableTo (typeOf nk) kt")
    case False
    from p2 have "pa (Some v) w1 = Ok (pv, w2)" by (simp add: plain_Interface [OF v])
    from settledD(2) [OF pa v this] have iv: "\<And>w3. pa (Interface v) w3 = Ok (pv, w3)"
      by (simp add: plain_Interface [OF v])
    from False sk(2) iv ak Cons.prems(2) show ?thesis
      by (intro exI [of _ acc]) (subst map_step, simp del: processMap_entries.simps)
  next
    case True
    note asg_k = this
    from run p1 p2 ak True obtain nv where av: "Any pv = Some nv"
      by (subst (asm) map_step) (auto simp del: processMap_entries.simps split: option.splits)
    note sv = slot_settled(1,2) [OF pa v tv p2 av]
    show ?thesis
    proof (cases "AssignableTo (typeOf nv) vt")
      case False
      with asg_k sk(2) sv(2) ak av Cons.prems(2) show ?thesis
        by (intro exI [of _ acc]) (subst map_step, simp del: processMap_entries.simps)
    next
      case True
      from run p1 p2 ak av asg_k True have h: "hashable (Set_val kt nk)"
        by (subst (asm) map_step) (auto simp del: processMap_entries.simps split: if_splits)
      note fk = assigned_fixed [OF pa k tk p1 ak asg_k]
      note fv = assigned_fixed [OF pa v tv p2 av True]
      from fk fv h have fe: "kept_entry pa kt vt (nk, nv)" by (simp add: kept_entry_def)
      have la: "list_all (kept_entry pa kt vt) (AList.update nk nv acc)"
        by (rule update_list_all [OF fe Cons.prems(2)])
      have d: "distinct (map fst acc) \<longrightarrow> distinct (map fst (AList.update nk nv acc))"
        by (simp add: distinct_update)
      from asg_k True sk(2) sv(2) ak av h fk(1) fv(1) la d show ?thesis
        by (intro exI [of _ "AList.update nk nv acc"])
          (subst map_step, simp del: processMap_entries.simps)
    qed
  qed
  then obtain acc' where la: "list_all (kept_entry pa kt vt) acc'"
    and d: "distinct (map fst acc) \<longrightarrow> distinct (map fst acc')"
    and eq: "\<And>w3. processMap_entries pa kt vt ((k, v) # entries) acc w3
                = processMap_entries pa kt vt entries acc' w3" by blast
  from run eq have "processMap_entries pa kt vt entries acc' w = Ok (newMap, w')" by simp
  from Cons.IH [OF pl la this] d eq e show ?case by simp
qed

lemma kept_reordered:
  assumes v: "valid p" and k: "list_all (kept_entry pa kt vt) es" and d: "distinct (map fst es)"
  shows "list_all (fixed_entry pa kt vt) (p (map (\<lambda>e. (fst e, reorder p (snd e))) es))"
    and "distinct (map fst (p (map (\<lambda>e. (fst e, reorder p (snd e))) es)))"
proof -
  from k v have "list_all (fixed_entry pa kt vt) (map (\<lambda>e. (fst e, reorder p (snd e))) es)"
    by (auto simp add: list_all_iff kept_entry_def fixed_entry_def stable_def)
  then show "list_all (fixed_entry pa kt vt) (p (map (\<lambda>e. (fst e, reorder p (snd e))) es))"
    by (simp add: valid_all [OF v])
  from d have "distinct (map fst (map (\<lambda>e. (fst e, reorder p (snd e))) es))"
    by (simp add: comp_def)
  from valid_distinct [OF v this]
  show "distinct (map fst (p (map (\<lambda>e. (fst e, reorder p (snd e))) es)))" .
qed

lemma run_scalar:
  assumes env: "\<forall>t. env t = None" and k: "basicKind (typeOf v)" and pl: "plain v"
  shows "run (Suc (Suc n)) env (CAny (Some v)) w = returnAny (Some v) w"
  using k plain_Interface [OF pl]
  by (simp add: processAny_body_def asLogValuer_none [OF env] processAny_loop_def Kind_def
      processAny_switch_def basicKind_def split: rkind.splits)

lemma run_struct:
  assumes env: "\<forall>t. env t = None" and u: "underlying t = StructT sfs"
  shows "run (Suc (Suc (Suc n))) env (CAny (Some (VStruct t fs))) w
     = andThen (processStruct_fields (\<lambda>x. run n env (CAny x)) sfs fs w)
         (\<lambda>(newStruct, w1). returnAny (Some (VStruct t newStruct)) w1)"
  by (simp add: processAny_body_def asLogValuer_none [OF env] processAny_loop_def Kind_def
      processAny_switch_def kind_of_underlying(1) [OF u] processStruct_body_def NumField_def
      fieldsOf_def u del: returnAny_struct)

lemma run_slice:
  assumes env: "\<forall>t. env t = None" and u: "underlying t = SliceT et"
  shows "run (Suc (Suc (Suc n))) env (CAny (Some (VSlice t (Some xs)))) w
     = andThen (processSlice_elems (\<lambda>x. run n env (CAny x)) et xs w)
         (\<lambda>(newSlice, w1). returnAny (Some (VSlice t (Some newSlice))) w1)"
    and "run (Suc (Suc (Suc n))) env (CAny (Some (VSlice t None))) w = Ok (AnyV None, w)"
  by (simp_all add: processAny_body_def asLogValuer_none [OF env] processAny_loop_def Kind_def
      processAny_switch_def kind_of_underlying(2) [OF u] processSliceOrArray_body_def IsNil_def
      elemType_def u del: returnAny_slice)

lemma run_map:
  assumes env: "\<forall>t. env t = None" and u: "underlying t = MapT kt vt"
  shows "run (Suc (Suc (Suc n))) env (CAny (Some (VMap t (Some es)))) w
     = andThen (processMap_entries (\<lambda>x. run n env (CAny x)) kt vt es [] w)
         (\<lambda>(newMap, w1). returnAny (Some (VMap t (Some newMap))) w1)"
    and "run (Suc (Suc (Suc n))) env (CAny (Some (VMap t None))) w = Ok (AnyV None, w)"
  by (simp_all add: processAny_body_def asLogValuer_none [OF env] processAny_loop_def Kind_def
      processAny_switch_def kind_of_underlying(3) [OF u] processMap_body_def IsNil_def u
      del: returnAny_map)

lemma plain_kind:
  assumes "plain v" and "\<not> basicKind (typeOf v)"
  shows "Kind v = KStruct \<or> Kind v = KSlice \<or> Kind v = KMap"
proof (cases v)
  case (VStruct t fs)
  with assms plain_struct [of t fs] show ?thesis by (auto simp add: Kind_def kind_of_underlying)
next
  case (VSlice t xs)
  with assms plain_slice [of t xs] show ?thesis by (auto simp add: Kind_def kind_of_underlying)
next
  case (VMap t m)
  with assms plain_map [of t m] show ?thesis by (auto simp add: Kind_def kind_of_underlying)
qed (use assms in simp_all)

lemma run_fuel:
  assumes env: "\<forall>t. env t = None" and pl: "plain v"
    and ok: "run n env (CAny (Some v)) w = Ok x"
  shows "\<exists>m. n = Suc (Suc m)" and "\<not> basicKind (typeOf v) \<Longrightarrow> \<exists>m. n = Suc (Suc (Suc m))"
proof -
  from ok obtain a where a: "n = Suc a" by (cases n) simp_all
  with ok obtain b where b: "a = Suc b"
    by (cases a) (simp_all add: processAny_body_def asLogValuer_none [OF env])
  with a show "\<exists>m. n = Suc (Suc m)" by simp
  assume nb: "\<not> basicKind (typeOf v)"
  have "b \<noteq> 0"
  proof
    assume "b = 0"
    with ok a b plain_kind [OF pl nb] show False
      by (auto simp add: processAny_body_def asLogValuer_none [OF env] processAny_loop_def
          processAny_switch_def)
  qed
  with a b show "\<exists>m. n = Suc (Suc (Suc m))" by (cases b) simp_all
qed

lemma scalar_settles:
  assumes env: "\<forall>t. env t = None" and pl: "plain v" and k: "basicKind (typeOf v)"
    and ok: "run n env (CAny (Some v)) w = Ok (r, w')"
  shows "settles (\<lambda>x. run n env (CAny x)) v w r w'"
proof -
  from run_fuel(1) [OF env pl ok] obtain m where n: "n = Suc (Suc m)" ..
  from scalar_settled [OF pl k] obtain r0 where s: "scalar_ok v r0" ..
  then have one: "\<And>w. returnAny (Some v) w = Ok (r0, w)" by (simp add: scalar_ok_def)
  with ok n have r: "r = r0" and w: "w' = w"
    by (simp_all add: run_scalar [OF env k pl] del: run.simps)
  have "\<forall>v'. Any r = Some v' \<longrightarrow> plain v' \<and> related v v'
          \<and> run n env (CAny (Some v')) w = Ok (r, w)
          \<and> stable (\<lambda>x. run n env (CAny x)) (typeOf v') v'"
  proof (intro allI impI)
    fix v' assume a: "Any r = Some v'"
    with s r have p: "plain v'" and rel: "related v v'" and k': "basicKind (typeOf v')"
      and again: "\<And>w. returnAny (Some v') w = Ok (r, w)" by (simp_all add: scalar_ok_def)
    from again n have run: "\<And>w. run n env (CAny (Some v')) w = Ok (r, w)"
      by (simp add: run_scalar [OF env k' p] del: run.simps)
    with p a have "stable (\<lambda>x. run n env (CAny x)) (typeOf v') v'"
      by (auto simp add: stable_def fixed_def reorder_scalar [OF p k'] plain_Interface [OF p])
    with p rel run
    show "plain v' \<and> related v v' \<and> run n env (CAny (Some v')) w = Ok (r, w)
          \<and> stable (\<lambda>x. run n env (CAny x)) (typeOf v') v'"
      by simp
  qed
  with one r w n show ?thesis
    by (simp add: settles_def run_scalar [OF env k pl] del: run.simps)
qed

lemma struct_settles:
  assumes env: "\<forall>t. env t = None" and pa: "settled (\<lambda>x. run m env (CAny x))"
    and pl: "plain (VStruct t fs)"
    and ok: "run (Suc (Suc (Suc m))) env (CAny (Some (VStruct t fs))) w = Ok (r, w')"
  shows "settles (\<lambda>x. run (Suc (Suc (Suc m))) env (CAny x)) (VStruct t fs) w r w'"
proof -
  from plain_struct [OF pl] obtain sfs where u: "underlying t = StructT sfs" ..
  with pl have fp: "fields_plain sfs fs" by (simp add: fields_plain_def)
  note step = run_struct [OF env u]
  from ok [unfolded step] obtain fs' w1 where
    l: "processStruct_fields (\<lambda>x. run m env (CAny x)) sfs fs w = Ok (fs', w1)"
    and r: "r = AnyV (Some (VStruct t fs'))" and w1: "w' = w1"
    by (auto simp add: andThen_def simp del: run.simps split: outcome.splits prod.splits)
  from struct_loop_settled [OF pa fp l] have w: "w1 = w"
    and i: "\<And>w2. processStruct_fields (\<lambda>x. run m env (CAny x)) sfs fs w2 = Ok (fs', w2)"
    and p: "fields_plain sfs fs'"
    and a: "\<And>p w2. valid p \<Longrightarrow> processStruct_fields (\<lambda>x. run m env (CAny x)) sfs
               (map (reorder p) fs') w2 = Ok (map (reorder p) fs', w2)"
    by simp_all
  from p u have pl': "plain (VStruct t fs')" by (simp add: fields_plain_def)
  from a [OF valid_id] have a0: "\<And>w2. processStruct_fields (\<lambda>x. run m env (CAny x)) sfs fs' w2
      = Ok (fs', w2)" by (simp add: map_idI)
  have st: "stable (\<lambda>x. run (Suc (Suc (Suc m))) env (CAny x)) t (VStruct t fs')"
    unfolding stable_def fixed_def
  proof (intro allI impI conjI)
    fix p :: "(goval \<times> goval) list \<Rightarrow> (goval \<times> goval) list"
    assume v: "valid p"
    from plain_reorder [OF v pl'] show "plain (reorder p (VStruct t fs'))" .
    show "typeOf (reorder p (VStruct t fs')) = t" by simp
    from a [OF v]
    show "\<exists>pv. (\<forall>w. run (Suc (Suc (Suc m))) env (CAny (Interface (reorder p (VStruct t fs')))) w
                  = Ok (pv, w)) \<and> Any pv = Some (reorder p (VStruct t fs'))"
      by (simp add: step del: run.simps)
  qed
  show ?thesis
    unfolding settles_def using w w1 r i a0 pl' st
    by (simp add: step related_def del: run.simps)
qed

lemma slice_settles:
  assumes env: "\<forall>t. env t = None" and pa: "settled (\<lambda>x. run m env (CAny x))"
    and pl: "plain (VSlice t xs)"
    and ok: "run (Suc (Suc (Suc m))) env (CAny (Some (VSlice t xs))) w = Ok (r, w')"
  shows "settles (\<lambda>x. run (Suc (Suc (Suc m))) env (CAny x)) (VSlice t xs) w r w'"
proof -
  from plain_slice [OF pl] obtain et where u: "underlying t = SliceT et" ..
  note step = run_slice [OF env u]
  show ?thesis
  proof (cases xs)
    case None
    with ok show ?thesis by (auto simp add: settles_def step simp del: run.simps)
  next
    case (Some ys)
    with pl u have fp: "list_all (\<lambda>x. plain x \<and> typeOf x = et) ys" by simp
    from ok [unfolded Some step] obtain ys' w1 where
      l: "processSlice_elems (\<lambda>x. run m env (CAny x)) et ys w = Ok (ys', w1)"
      and r: "r = AnyV (Some (VSlice t (Some ys')))" and w1: "w' = w1"
      by (auto simp add: andThen_def simp del: run.simps split: outcome.splits prod.splits)
    from slice_loop_settled [OF pa fp l] have w: "w1 = w"
      and i: "\<And>w2. processSlice_elems (\<lambda>x. run m env (CAny x)) et ys w2 = Ok (ys', w2)"
      and p: "list_all (\<lambda>x. plain x \<and> typeOf x = et) ys'"
      and a: "\<And>p w2. valid p \<Longrightarrow> processSlice_elems (\<lambda>x. run m env (CAny x)) et
                 (map (reorder p) ys') w2 = Ok (map (reorder p) ys', w2)"
      by simp_all
    from p u have pl': "plain (VSlice t (Some ys'))" by simp
    from a [OF valid_id] have a0: "\<And>w2. processSlice_elems (\<lambda>x. run m env (CAny x)) et ys' w2
        = Ok (ys', w2)" by (simp add: map_idI)
    have st: "stable (\<lambda>x. run (Suc (Suc (Suc m))) env (CAny x)) t (VSlice t (Some ys'))"
      unfolding stable_def fixed_def
    proof (intro allI impI conjI)
      fix p :: "(goval \<times> goval) list \<Rightarrow> (goval \<times> goval) list"
      assume v: "valid p"
      from plain_reorder [OF v pl'] show "plain (reorder p (VSlice t (Some ys')))" .
      show "typeOf (reorder p (VSlice t (Some ys'))) = t" by simp
      from a [OF v]
      show "\<exists>pv. (\<forall>w. run (Suc (Suc (Suc m))) env
                        (CAny (Interface (reorder p (VSlice t (Some ys'))))) w = Ok (pv, w))
                \<and> Any pv = Some (reorder p (VSlice t (Some ys')))"
        by (simp add: step del: run.simps)
    qed
    show ?thesis
      unfolding settles_def Some using w w1 r i a0 pl' st
      by (simp add: step related_def del: run.simps)
  qed
qed

lemma fixed_entry_plain:
  "list_all (fixed_entry pa kt vt) es
   \<Longrightarrow> list_all (\<lambda>e. plain (fst e) \<and> typeOf (fst e) = kt \<and> plain (snd e) \<and> typeOf (snd e) = vt) es"
  by (induction es) (simp_all add: fixed_entry_def fixed_def)

lemma map_settles:
  assumes env: "\<forall>t. env t = None" and pa: "settled (\<lambda>x. run m env (CAny x))"
    and pl: "plain (VMap t es)"
    and ok: "run (Suc (Suc (Suc m))) env (CAny (Some (VMap t es))) w = Ok (r, w')"
  shows "settles (\<lambda>x. run (Suc (Suc (Suc m))) env (CAny x)) (VMap t es) w r w'"
proof -
  from plain_map [OF pl] obtain kt vt where u: "underlying t = MapT kt vt" by blast
  note step = run_map [OF env u]
  show ?thesis
  proof (cases es)
    case None
    with ok show ?thesis by (auto simp add: settles_def step simp del: run.simps)
  next
    case (Some ys)
    with pl u have fp: "list_all (plain_entry kt vt) ys"
      by (simp add: plain_entry_def [abs_def])
    from ok [unfolded Some step] obtain ys' w1 where
      l: "processMap_entries (\<lambda>x. run m env (CAny x)) kt vt ys [] w = Ok (ys', w1)"
      and r: "r = AnyV (Some (VMap t (Some ys')))" and w1: "w' = w1"
      by (auto simp add: andThen_def simp del: run.simps split: outcome.splits prod.splits)
    have e: "list_all (kept_entry (\<lambda>x. run m env (CAny x)) kt vt) []" by simp
    from map_loop_settled [OF pa fp e l] have w: "w1 = w"
      and i: "\<And>w2. processMap_entries (\<lambda>x. run m env (CAny x)) kt vt ys [] w2 = Ok (ys', w2)"
      and p: "list_all (kept_entry (\<lambda>x. run m env (CAny x)) kt vt) ys'"
      and d: "distinct (map fst ys')"
      by simp_all
    have a: "\<And>p w2. valid p \<Longrightarrow> processMap_entries (\<lambda>x. run m env (CAny x)) kt vt
                (p (map (\<lambda>e. (fst e, reorder p (snd e))) ys')) [] w2
              = Ok (p (map (\<lambda>e. (fst e, reorder p (snd e))) ys'), w2)"
    proof -
      fix p :: "(goval \<times> goval) list \<Rightarrow> (goval \<times> goval) list" and w2
      assume v: "valid p"
      let ?es = "p (map (\<lambda>e. (fst e, reorder p (snd e))) ys')"
      note k = kept_reordered [OF v p d]
      from insert_all_append [OF k(2), of "[]"] have "insert_all ?es [] = ?es" by simp
      with map_loop_fixed [OF k(1), of "[]" w2]
      show "processMap_entries (\<lambda>x. run m env (CAny x)) kt vt ?es [] w2 = Ok (?es, w2)"
        by simp
    qed
    from a [OF valid_id] have a0: "\<And>w2. processMap_entries (\<lambda>x. run m env (CAny x)) kt vt ys' [] w2
        = Ok (ys', w2)" by (simp add: map_idI)
    from p have "list_all (fixed_entry (\<lambda>x. run m env (CAny x)) kt vt) ys'"
      by (simp add: list_all_iff kept_entry_fixed)
    from fixed_entry_plain [OF this] u have pl': "plain (VMap t (Some ys'))" by simp
    have st: "stable (\<lambda>x. run (Suc (Suc (Suc m))) env (CAny x)) t (VMap t (Some ys'))"
      unfolding stable_def fixed_def
    proof (intro allI impI conjI)
      fix p :: "(goval \<times> goval) list \<Rightarrow> (goval \<times> goval) list"
      assume v: "valid p"
      from plain_reorder [OF v pl'] show "plain (reorder p (VMap t (Some ys')))" .
      show "typeOf (reorder p (VMap t (Some ys'))) = t" by simp
      from a [OF v]
      show "\<exists>pv. (\<forall>w. run (Suc (Suc (Suc m))) env
                        (CAny (Interface (reorder p (VMap t (Some ys'))))) w = Ok (pv, w))
                \<and> Any pv = Some (reorder p (VMap t (Some ys')))"
        by (simp add: step del: run.simps)
    qed
    show ?thesis
      unfolding settles_def Some using w w1 r i a0 pl' st
      by (simp add: step related_def del: run.simps)
  qed
qed

lemma run_settled:
  assumes env: "\<forall>t. env t = None"
  shows "settled (\<lambda>x. run n env (CAny x))"
proof (induction n rule: less_induct)
  case (less n)
  show ?case
    unfolding settled_def
  proof (intro allI impI)
    fix v w r w'
    assume pl: "plain v" and ok: "run n env (CAny (Some v)) w = Ok (r, w')"
    show "settles (\<lambda>x. run n env (CAny x)) v w r w'"
    proof (cases "basicKind (typeOf v)")
      case True
      from scalar_settles [OF env pl True ok] show ?thesis .
    next
      case False
      from run_fuel(2) [OF env pl ok False] obtain m where n: "n = Suc (Suc (Suc m))" ..
      then have "m < n" by simp
      from less.IH [OF this] have pa: "settled (\<lambda>x. run m env (CAny x))" .
      show ?thesis
      proof (cases v)
        case (VStruct t fs)
        with pl ok n struct_settles [OF env pa, of t fs w r w'] show ?thesis
          by (simp del: run.simps)
      next
        case (VSlice t xs)
        with pl ok n slice_settles [OF env pa, of t xs w r w'] show ?thesis
          by (simp del: run.simps)
      next
        case (VMap t es)
        with pl ok n map_settles [OF env pa, of t es w r w'] show ?thesis
          by (simp del: run.simps)
      qed (use pl False in simp_all)
    qed
  qed
qed

lemma ReplaceAttr_Any:
  assumes env: "\<forall>t. env t = None" and a: "Value a = AnyV x"
  shows "ReplaceAttr (Suc k) env groups a st
     = andThen (run k env (CAny x) (fresh st)) (\<lambda>(v, w). Ok (a\<lparr>Value := v\<rparr>, mem w))"
  using a
  by (simp add: ReplaceAttr_def processValue_def processValue_body_def Kind_of_def
      asLogValuer_none [OF env] fresh_def)

lemma ReplaceAttr_leaf:
  assumes "plain_value (Value a)" and "\<forall>x. Value a \<noteq> AnyV x"
  shows "ReplaceAttr (Suc k) env groups a st = Ok (a, st)"
  using assms
  by (cases "Value a")
    (simp_all add: ReplaceAttr_def processValue_def processValue_body_def Kind_of_def)

lemma ReplaceAttr_fuel: "ReplaceAttr n env groups a st = Ok x \<Longrightarrow> \<exists>k. n = Suc k"
  by (cases n) (simp_all add: ReplaceAttr_def processValue_def)

lemma plain_value_Any: "plain_value r \<Longrightarrow> Any r = Some v \<Longrightarrow> r = AnyV (Some v) \<or> (\<forall>x. r \<noteq> AnyV x)"
  by (cases r) auto

lemma reorder_value_id [simp]: "reorder_value (\<lambda>es. es) r = r"
  by (induction "\<lambda>es :: (goval \<times> goval) list. es" r rule: reorder_value.induct) simp_all

lemma reorder_value_leaf: "\<forall>x. r \<noteq> AnyV x \<Longrightarrow> reorder_value p r = r"
  by (cases r) simp_all

lemma Any_compound:
  "Any pv = Some x \<Longrightarrow> plain x \<Longrightarrow> \<not> basicKind (typeOf x) \<Longrightarrow> pv = AnyV (Some x)"
  by (cases pv) auto

lemma walked_again:
  assumes env: "\<forall>t. env t = None" and pl: "plain v"
    and run: "run k env (CAny (Some v)) w = Ok (AnyV (Some v'), w')" and v: "valid p"
  shows "run k env (CAny (Some (reorder p v'))) w2 = Ok (AnyV (Some (reorder p v')), w2)"
proof -
  have a: "Any (AnyV (Some v')) = Some v'" by simp
  from settledD(3) [OF run_settled [OF env] pl run a] have v': "plain v'"
    and again: "\<And>w2. run k env (CAny (Some v')) w2 = Ok (AnyV (Some v'), w2)"
    and st: "stable (\<lambda>x. run k env (CAny x)) (typeOf v') v'" by simp_all
  show ?thesis
  proof (cases "basicKind (typeOf v')")
    case True
    from reorder_scalar [OF v' True] again show ?thesis by simp
  next
    case False
    from st v obtain pv where
      r: "\<And>w. run k env (CAny (Interface (reorder p v'))) w = Ok (pv, w)"
      and pv: "Any pv = Some (reorder p v')"
      by (auto simp add: stable_def fixed_def)
    from Any_compound [OF pv plain_reorder [OF v v']] False
    have "pv = AnyV (Some (reorder p v'))" by simp
    with r [of w2] show ?thesis by (simp add: plain_Interface [OF plain_reorder [OF v v']])
  qed
qed

lemma ReplaceAttr_again:
  assumes env: "\<forall>t. env t = None" and pl: "plain_value (Value a)"
    and first: "ReplaceAttr n env groups a st = Ok (b, st')" and v: "valid p"
  shows "plain_value (Value b)"
    and "ReplaceAttr n env groups2 (b\<lparr>Value := reorder_value p (Value b)\<rparr>) st'
         = Ok (b\<lparr>Value := reorder_value p (Value b)\<rparr>, st')"
proof -
  from ReplaceAttr_fuel [OF first] obtain k where n: "n = Suc k" ..
  have "plain_value (Value b)
      \<and> ReplaceAttr n env groups2 (b\<lparr>Value := reorder_value p (Value b)\<rparr>) st'
         = Ok (b\<lparr>Value := reorder_value p (Value b)\<rparr>, st')"
  proof (cases "\<exists>x. Value a = AnyV x")
    case False
    with first n pl ReplaceAttr_leaf [of a k env groups st] have "b = a" and "st' = st"
      by simp_all
    with False n pl ReplaceAttr_leaf [of a k env groups2 st] show ?thesis
      by (simp add: reorder_value_leaf)
  next
    case True
    then obtain x where a: "Value a = AnyV x" ..
    note step = ReplaceAttr_Any [OF env]
    from first n obtain r w where
      run: "run k env (CAny x) (fresh st) = Ok (r, w)" and b: "b = a\<lparr>Value := r\<rparr>"
      and st': "st' = mem w"
      unfolding n step [OF a]
      by (auto simp add: andThen_def split: outcome.splits prod.splits)
    show ?thesis
    proof (cases x)
      case None
      with run obtain j where "k = Suc j" by (cases k) simp_all
      with run None have "r = AnyV None" and "w = fresh st"
        by (simp_all add: processAny_body_def)
      with b st' a None n run show ?thesis
        by (simp add: step [of _ None] fresh_def del: run.simps)
    next
      case (Some v0)
      with a pl have v0: "plain v0" by simp
      from run Some have run: "run k env (CAny (Some v0)) (fresh st) = Ok (r, w)" by simp
      note s = settledD [OF run_settled [OF env] v0 run]
      from s(1) st' have st: "st' = st" by (simp add: fresh_def)
      show ?thesis
      proof (cases "Any r")
        case None
        then have r: "r = AnyV None" by (cases r) simp_all
        from run_fuel(1) [OF env v0 run] obtain j where "k = Suc j" by blast
        then have "run k env (CAny None) (fresh st) = Ok (AnyV None, fresh st)"
          by (simp add: processAny_body_def)
        with b r st n show ?thesis
          by (simp add: step [of _ None] fresh_def del: run.simps)
      next
        case (Some v')
        from s(3) [OF Some] have v': "plain v'" by simp
        have pr: "plain_value r" using Some v' by (cases r) auto
        from plain_value_Any [OF pr Some] show ?thesis
        proof
          assume r: "r = AnyV (Some v')"
          from walked_again [OF env v0 run [unfolded r] v, of "fresh st"] plain_reorder [OF v v']
          show ?thesis using b st n r v'
            by (simp add: step [of _ "Some (reorder p v')"] fresh_def del: run.simps)
        next
          assume l: "\<forall>x. r \<noteq> AnyV x"
          with pr b st n ReplaceAttr_leaf [of b k env groups2 st] show ?thesis
            by (simp add: reorder_value_leaf)
        qed
      qed
    qed
  qed
  then show "plain_value (Value b)"
    and "ReplaceAttr n env groups2 (b\<lparr>Value := reorder_value p (Value b)\<rparr>) st'
         = Ok (b\<lparr>Value := reorder_value p (Value b)\<rparr>, st')" by simp_all
qed

section \<open>The claims\<close>

text \<open>
  C1. Every field with a non-empty \<^verbatim>\<open>sentinel\<close> tag is claimed to be the zero value of
  its type in the output. \<^verbatim>\<open>processStruct\<close> skips a field that is not exported before
  it looks at the tag, so an unexported field keeps what it held, tag or no tag:
\<close>

theorem unexported_sensitive_field_kept:
  "processStruct 3 no_methods (VStruct Account [str ''alice'', str ''hunter2''])
      (fresh empty_store)
     = Ok (AnyV (Some (VStruct Account [str ''alice'', str ''hunter2''])), fresh empty_store)
   \<and> Tag_Get (Tag (StructField ''password'' ''main'' (Basic TString) [(''sentinel'', ''true'')]))
        ''sentinel'' = ''true''
   \<and> str ''hunter2'' \<noteq> Zero (Basic TString)"
  by (simp add: walk_defs program_defs numeral_3_eq_3)

text \<open>
  C1, amended. Whenever \<^verbatim>\<open>processStruct\<close> returns, what it returns is a struct of the
  type it was given, with as many fields; every exported field whose \<^verbatim>\<open>sentinel\<close> tag
  is not empty holds the zero value of the field's declared type, whatever it held
  before; and every unexported field holds what it held before.
\<close>

theorem sensitive_exported_field_zeroed:
  assumes "processStruct n env rv w = Ok (r, w')"
    and "NumField rv = Some sfs"
    and "i < length sfs" and "i < length (fieldsOf rv)"
  shows "\<exists>fs'. r = AnyV (Some (VStruct (typeOf rv) fs'))
           \<and> length fs' = length (fieldsOf rv)
           \<and> (CanInterface (sfs ! i) \<and> Tag_Get (Tag (sfs ! i)) ''sentinel'' \<noteq> []
                \<longrightarrow> fs' ! i = Zero (Type (sfs ! i)))
           \<and> (\<not> CanInterface (sfs ! i) \<longrightarrow> fs' ! i = fieldsOf rv ! i)"
proof -
  from processStruct_Ok [OF assms(1)] assms(2) obtain m fs' where
    f: "processStruct_fields (processAny m env) sfs (fieldsOf rv) w = Ok (fs', w')"
    and r: "r = AnyV (Some (VStruct (typeOf rv) fs'))"
    by auto
  show ?thesis
    using r processStruct_fields_length [OF f]
      processStruct_fields_sensitive [OF f assms(3,4)]
      processStruct_fields_unexported [OF f assms(3,4)]
    by blast
qed

theorem sensitive_exported_field_zeroed_witness:
  "processStruct 3 no_methods (VStruct bench_Nested [str ''TopSecret'', str ''PublicData''])
      (fresh empty_store)
     = Ok (AnyV (Some (VStruct bench_Nested [str [], str ''PublicData''])), fresh empty_store)
   \<and> (\<exists>fs'. AnyV (Some (VStruct bench_Nested [str [], str ''PublicData'']))
              = AnyV (Some (VStruct bench_Nested fs'))
            \<and> length fs' = 2 \<and> fs' ! 0 = Zero (Basic TString))"
proof -
  have e: "processStruct 3 no_methods (VStruct bench_Nested [str ''TopSecret'', str ''PublicData''])
      (fresh empty_store)
     = Ok (AnyV (Some (VStruct bench_Nested [str [], str ''PublicData''])), fresh empty_store)"
    by (simp add: walk_defs program_defs numeral_3_eq_3)
  have nf: "NumField (VStruct bench_Nested [str ''TopSecret'', str ''PublicData''])
      = Some [StructField ''Secret'' [] (Basic TString) [(''sentinel'', ''true'')],
              StructField ''Data'' [] (Basic TString) []]"
    by (simp add: NumField_def bench_Nested_def)
  from sensitive_exported_field_zeroed [OF e nf, of 0] e show ?thesis
    by (simp add: fieldsOf_def CanInterface_def Tag_Get_def bench_Nested_def)
qed

text \<open>
  C2. The walker is claimed total: no input makes \<^verbatim>\<open>ReplaceAttr\<close> panic. The code
  panics on the value of \<^verbatim>\<open>example/main.go\<close> with its pointer field \<^verbatim>\<open>Nested\<close> set to
  nil: the nil pointer is turned into \<^verbatim>\<open>slog.AnyValue(nil)\<close>, \<^verbatim>\<open>reflect.ValueOf\<close> of
  its \<^verbatim>\<open>Any()\<close> is the zero \<^verbatim>\<open>reflect.Value\<close>, and \<^verbatim>\<open>Type\<close> panics on it. It also
  panics on every array, on which \<^verbatim>\<open>processSliceOrArray\<close> calls \<^verbatim>\<open>IsNil\<close>. Both hold
  at every depth that lets the walk reach the place.
\<close>

theorem ReplaceAttr_panics:
  "ReplaceAttr (Suc (Suc (Suc (Suc (Suc (Suc n)))))) main_methods []
      \<lparr>Key = ''data'', Value = AnyV (Some (data None))\<rparr> main_store = Panic
   \<and> ReplaceAttr (Suc (Suc (Suc (Suc n)))) no_methods []
      \<lparr>Key = ''a'', Value = AnyV (Some (VArray (ArrayT 2 (Basic TString)) [str ''a'', str ''b'']))\<rparr>
      empty_store = Panic"
  by (simp add: walk_defs program_defs)

text \<open>
  C3. A reference met for the first time is claimed to be recorded, followed, and the
  result wrapped again as a reference of the same kind. \<^verbatim>\<open>processPointer\<close> does so, but
  \<^verbatim>\<open>processAny\<close> never calls it: its own loop follows the pointer and returns what
  \<^verbatim>\<open>processStruct\<close> returns, the struct. For the pointer of \<^verbatim>\<open>example/main.go\<close> the
  result is a \<^verbatim>\<open>Nested\<close>, not a \<^verbatim>\<open>*Nested\<close>; in \<^verbatim>\<open>processStruct\<close> that result is not
  assignable to the field, so the attribute returned for \<^verbatim>\<open>data\<close> still holds the
  pointer to the variable whose \<^verbatim>\<open>Secret\<close> is \<^verbatim>\<open>TopSecret\<close>.
\<close>

theorem pointer_not_rewrapped:
  "processAny (Suc (Suc (Suc (Suc (Suc (Suc n)))))) main_methods
      (Some (VPtr (PtrT Nested) (Some 1))) (fresh main_store)
     = Ok (AnyV (Some (VStruct Nested [str [], str ''PublicData''])),
           \<lparr>visited = (\<lambda>_. False)(1 := True), mem = main_store\<rparr>)
   \<and> ReplaceAttr (Suc (Suc (Suc (Suc (Suc (Suc (Suc (Suc (Suc (Suc n)))))))))) main_methods []
      \<lparr>Key = ''data'', Value = AnyV (Some (data (Some 1)))\<rparr> main_store
     = Ok (\<lparr>Key = ''data'',
            Value = AnyV (Some (VStruct Example
              [VInt (Basic TInt) 123, str ''Alice'', VPtr (PtrT Nested) (Some 1),
               VStruct Custom [VInt (Basic TInt) 2],
               VSlice (SliceT (Basic TString)) None]))\<rparr>,
           main_store\<lparr>arrays := [2 \<mapsto> [\<lparr>Key = ''enum'', Value = StringV ''Two''\<rparr>]],
                      brk := 3\<rparr>)
   \<and> cells main_store 1 = Some (VStruct Nested [str ''TopSecret'', str ''PublicData''])"
  by (simp add: walk_defs program_defs)

text \<open>
  C4. The walker is claimed never to write to the value it is given, the attribute
  lists of groups included. For an attribute that is a group, \<^verbatim>\<open>processValue\<close> assigns
  to \<^verbatim>\<open>attrs[i].Value\<close> in the slice \<^verbatim>\<open>v.Group()\<close> returns, which is the group's own
  array, and \<^verbatim>\<open>slog.GroupValue(attrs...)\<close> returns a group on that same array: after the
  call the array of the caller's group holds the redacted struct, and the group
  returned is at the address of the one given.
\<close>

theorem group_written_in_place:
  "ReplaceAttr (Suc (Suc (Suc (Suc (Suc (Suc (Suc n))))))) no_methods []
      \<lparr>Key = ''g'', Value = GroupV (Some 1)\<rparr> group_store
     = Ok (\<lparr>Key = ''g'', Value = GroupV (Some 1)\<rparr>,
           group_store\<lparr>arrays :=
             [1 \<mapsto> [\<lparr>Key = ''user'',
                       Value = AnyV (Some (VStruct bench_Nested [str [], str ''PublicData'']))\<rparr>]]\<rparr>)
   \<and> arrays group_store 1
     = Some [\<lparr>Key = ''user'',
              Value = AnyV (Some (VStruct bench_Nested [str ''TopSecret'', str ''PublicData'']))\<rparr>]"
  by (simp add: walk_defs program_defs)

text \<open>
  C5. For a value that is a reference and implements \<^verbatim>\<open>LogValue\<close>, the identity is
  claimed to be recorded before the method is called, so that a graph that resolves to
  itself ends. \<^verbatim>\<open>processAny\<close> asks \<^verbatim>\<open>val.(slog.LogValuer)\<close> first and calls the method
  before its loop looks at the map; the value the method returns is walked by
  \<^verbatim>\<open>processValue\<close>, which calls the method again. On the node that is its own \<^verbatim>\<open>Next\<close>
  no depth is enough, inside a slice or alone.
\<close>

lemma node_resolves_forever:
  "run n node_methods (CValue (AnyV (Some (VPtr (PtrT Node) (Some 1)))))
      \<lparr>visited = vis, mem = node_store\<rparr> = OutOfFuel
   \<and> run n node_methods (CAny (Some (VPtr (PtrT Node) (Some 1))))
      \<lparr>visited = vis, mem = node_store\<rparr> = OutOfFuel"
  by (induction n) (simp_all add: walk_defs program_defs)

theorem resolvable_cycle_never_returns:
  "processAny n node_methods (Some (VPtr (PtrT Node) (Some 1))) (fresh node_store) = OutOfFuel
   \<and> ReplaceAttr n node_methods []
        \<lparr>Key = ''nodes'',
         Value = AnyV (Some (VSlice (SliceT (PtrT Node)) (Some [VPtr (PtrT Node) (Some 1)])))\<rparr>
        node_store = OutOfFuel"
proof
  show "processAny n node_methods (Some (VPtr (PtrT Node) (Some 1))) (fresh node_store) = OutOfFuel"
    using node_resolves_forever [of n "\<lambda>_. False"] by (simp add: processAny_def fresh_def)
next
  have "n = 0 \<or> n = Suc 0 \<or> n = Suc (Suc 0) \<or> n = Suc (Suc (Suc 0))
      \<or> (\<exists>k. n = Suc (Suc (Suc (Suc k))))" by arith
  moreover have "\<And>k. run k node_methods (CAny (Some (VPtr (PtrT Node) (Some 1))))
      \<lparr>visited = \<lambda>_. False, mem = node_store\<rparr> = OutOfFuel"
    using node_resolves_forever by blast
  ultimately show "ReplaceAttr n node_methods []
        \<lparr>Key = ''nodes'',
         Value = AnyV (Some (VSlice (SliceT (PtrT Node)) (Some [VPtr (PtrT Node) (Some 1)])))\<rparr>
        node_store = OutOfFuel"
    by (auto simp add: walk_defs no_methods_def node_methods_def)
qed




text \<open>
  C7. For every sequence that is not nil the walker is claimed to return a sequence of
  the same length, a slot whose result cannot be assigned keeping its element, and
  never to fail the call. On \<^verbatim>\<open>[]*Nested{nil}\<close> the result for the element is
  \<^verbatim>\<open>slog.AnyValue(nil)\<close>, and asking its type panics before the check of assignability;
  on an array \<^verbatim>\<open>IsNil\<close> panics.
\<close>

theorem sequence_call_fails:
  "ReplaceAttr (Suc (Suc (Suc (Suc (Suc (Suc n)))))) no_methods []
      \<lparr>Key = ''xs'',
       Value = AnyV (Some (VSlice (SliceT (PtrT Nested)) (Some [VPtr (PtrT Nested) None])))\<rparr>
      empty_store = Panic
   \<and> processSliceOrArray (Suc n) no_methods
        (VArray (ArrayT 1 Nested) [VStruct Nested [str ''TopSecret'', str ''PublicData'']])
        (fresh empty_store) = Panic"
  by (simp add: walk_defs program_defs)










end
